theory Spec2Isabelle
  imports Main "HOL-Library.AList"
begin

section \<open>Errors\<close>

text \<open>
  Python exceptions are values.  An assertion carries its message (the empty string when the
  \<^verbatim>\<open>assert\<close> has none), since the message is all that tells two assertions apart.
\<close>

datatype error =
    AssertionError string
  | ValueError
  | IndexError
  | KeyError
  | ZeroDivisionError
  | Exception string

section \<open>Geometry primitives\<close>

text \<open>
  Coordinates are ZYX triples of integers; a box is the pair \<open>(start, stop)\<close>, half-open.
  The arithmetic below is numpy's, componentwise: \<^verbatim>\<open>//\<close> is floor division, which is
  \<open>div\<close> on \<open>int\<close> (and numpy's integer \<^verbatim>\<open>x // 0\<close> is 0, as in HOL).
\<close>

type_synonym vec3 = "int \<times> int \<times> int"
type_synonym box = "vec3 \<times> vec3"

fun vadd :: "vec3 \<Rightarrow> vec3 \<Rightarrow> vec3" where
  "vadd (a, b, c) (d, e, f) = (a + d, b + e, c + f)"

fun vsub :: "vec3 \<Rightarrow> vec3 \<Rightarrow> vec3" where
  "vsub (a, b, c) (d, e, f) = (a - d, b - e, c - f)"

fun vmul :: "vec3 \<Rightarrow> vec3 \<Rightarrow> vec3" where
  "vmul (a, b, c) (d, e, f) = (a * d, b * e, c * f)"

fun vdiv :: "vec3 \<Rightarrow> vec3 \<Rightarrow> vec3" where
  "vdiv (a, b, c) (d, e, f) = (a div d, b div e, c div f)"

fun vmax :: "vec3 \<Rightarrow> vec3 \<Rightarrow> vec3" where
  "vmax (a, b, c) (d, e, f) = (max a d, max b e, max c f)"

fun vmin :: "vec3 \<Rightarrow> vec3 \<Rightarrow> vec3" where
  "vmin (a, b, c) (d, e, f) = (min a d, min b e, min c f)"

text \<open>\<open>(u <= v).all()\<close> and \<open>(u < v).all()\<close>.\<close>

fun vle :: "vec3 \<Rightarrow> vec3 \<Rightarrow> bool" where
  "vle (a, b, c) (d, e, f) = (a \<le> d \<and> b \<le> e \<and> c \<le> f)"

fun vless :: "vec3 \<Rightarrow> vec3 \<Rightarrow> bool" where
  "vless (a, b, c) (d, e, f) = (a < d \<and> b < e \<and> c < f)"

text \<open>Box arithmetic with broadcasting: \<^verbatim>\<open>box - v\<close> and \<^verbatim>\<open>box + v\<close> act on both rows.\<close>

definition box_sub :: "box \<Rightarrow> vec3 \<Rightarrow> box" where
  "box_sub b v = (vsub (fst b) v, vsub (snd b) v)"

definition box_add :: "box \<Rightarrow> vec3 \<Rightarrow> box" where
  "box_add b v = (vadd (fst b) v, vadd (snd b) v)"

text \<open>The voxels of a half-open box.\<close>

definition in_box :: "vec3 \<Rightarrow> box \<Rightarrow> bool" where
  "in_box p b = (vle (fst b) p \<and> vless p (snd b))"

definition box_voxels :: "box \<Rightarrow> vec3 set" where
  "box_voxels b = {p. in_box p b}"

record Grid =
  block_shape :: vec3
  offset :: vec3

text \<open>\<^verbatim>\<open>Grid.modulus_offset = offset % block_shape\<close> and \<^verbatim>\<open>Grid.equivalent_to\<close>.\<close>

fun vmod :: "vec3 \<Rightarrow> vec3 \<Rightarrow> vec3" where
  "vmod (a, b, c) (d, e, f) =
     ((if d = 0 then 0 else a mod d), (if e = 0 then 0 else b mod e), (if f = 0 then 0 else c mod f))"

definition modulus_offset :: "Grid \<Rightarrow> vec3" where
  "modulus_offset g = vmod (offset g) (block_shape g)"

definition equivalent_to :: "Grid \<Rightarrow> Grid \<Rightarrow> bool" where
  "equivalent_to g other_grid =
     (block_shape g = block_shape other_grid \<and> modulus_offset g = modulus_offset other_grid)"

text \<open>
  Modelled from the spec: \<^verbatim>\<open>box_intersection\<close> of \<^verbatim>\<open>DVIDSparkServices.util\<close> is not among the
  sources.  Componentwise max of the starts, componentwise min of the stops; a result with
  some stop at or below its start has no voxel (\<open>box_voxels\<close> is empty), which is how an
  empty box is marked.
\<close>

definition box_intersection :: "box \<Rightarrow> box \<Rightarrow> box" where
  "box_intersection box_A box_B = (vmax (fst box_A) (fst box_B), vmin (snd box_A) (snd box_B))"

text \<open>
  Python's \<^verbatim>\<open>range(start, stop, step)\<close>: a zero step raises \<^verbatim>\<open>ValueError\<close>, a positive
  step counts up while below \<open>stop\<close>, a negative step counts down while above it.
\<close>

definition py_range :: "int \<Rightarrow> int \<Rightarrow> int \<Rightarrow> error + int list" where
  "py_range start stop step =
     (if step = 0 then Inl ValueError
      else if 0 < step
        then Inr (map (\<lambda>k. start + int k * step) [0..<nat ((stop - start + step - 1) div step)])
        else Inr (map (\<lambda>k. start + int k * step) [0..<nat ((start - stop - step - 1) div (- step))]))"

text \<open>
  Modelled from the spec: \<^verbatim>\<open>ndrange\<close> of \<^verbatim>\<open>DVIDSparkServices.util\<close> is not among the sources.
  It is the N-dimensional \<^verbatim>\<open>range\<close>: the product of the three per-axis ranges, in
  lexicographic order by \<open>(z, y, x)\<close>.
\<close>

definition ndrange :: "vec3 \<Rightarrow> vec3 \<Rightarrow> vec3 \<Rightarrow> error + vec3 list" where
  "ndrange start stop step =
     (case (start, stop, step) of ((z0, y0, x0), (z1, y1, x1), (sz, sy, sx)) \<Rightarrow>
        (case py_range z0 z1 sz of Inl e \<Rightarrow> Inl e | Inr zs \<Rightarrow>
        (case py_range y0 y1 sy of Inl e \<Rightarrow> Inl e | Inr ys \<Rightarrow>
        (case py_range x0 x1 sx of Inl e \<Rightarrow> Inl e | Inr xs \<Rightarrow>
           Inr (List.product zs (List.product ys xs))))))"

text \<open>
  The grid walk computes on numpy arrays of dtype \<^verbatim>\<open>int\<close>, which is the signed 64-bit integer:
  \<^verbatim>\<open>np.asarray(bounding_box, dtype=int)\<close>, the block shape and the offset of a \<^verbatim>\<open>Grid\<close>.  Each
  \<^verbatim>\<open>+\<close>, \<^verbatim>\<open>-\<close>, \<^verbatim>\<open>*\<close> and \<^verbatim>\<open>//\<close> of such arrays wraps around silently: its result is the
  mathematical result reduced to the representative of its class modulo \<open>2^64\<close> in
  \<open>[-2^63, 2^63)\<close>.  \<open>int64\<close> is that reduction, and the operations suffixed \<open>64\<close> are the
  wrapping componentwise operations.
\<close>

definition int64 :: "int \<Rightarrow> int" where
  "int64 x = (x + 2 ^ 63) mod 2 ^ 64 - 2 ^ 63"

definition in_int64 :: "int \<Rightarrow> bool" where
  "in_int64 x = (- (2 ^ 63) \<le> x \<and> x < 2 ^ 63)"

fun vadd64 :: "vec3 \<Rightarrow> vec3 \<Rightarrow> vec3" where
  "vadd64 (a, b, c) (d, e, f) = (int64 (a + d), int64 (b + e), int64 (c + f))"

fun vsub64 :: "vec3 \<Rightarrow> vec3 \<Rightarrow> vec3" where
  "vsub64 (a, b, c) (d, e, f) = (int64 (a - d), int64 (b - e), int64 (c - f))"

fun vmul64 :: "vec3 \<Rightarrow> vec3 \<Rightarrow> vec3" where
  "vmul64 (a, b, c) (d, e, f) = (int64 (a * d), int64 (b * e), int64 (c * f))"

fun vdiv64 :: "vec3 \<Rightarrow> vec3 \<Rightarrow> vec3" where
  "vdiv64 (a, b, c) (d, e, f) = (int64 (a div d), int64 (b div e), int64 (c div f))"

definition box_sub64 :: "box \<Rightarrow> vec3 \<Rightarrow> box" where
  "box_sub64 b v = (vsub64 (fst b) v, vsub64 (snd b) v)"

definition box_add64 :: "box \<Rightarrow> vec3 \<Rightarrow> box" where
  "box_add64 b v = (vadd64 (fst b) v, vadd64 (snd b) v)"

text \<open>
  \<^verbatim>\<open>_boxes_from_grid_no_offset\<close>: round the start down and the stop up, then one block per step.
  \<^verbatim>\<open>aligned_start\<close> and \<^verbatim>\<open>aligned_stop\<close> are int64 arrays, each operation on them wraps;
  \<^verbatim>\<open>ndrange\<close> counts in Python integers; \<^verbatim>\<open>block_start + block_shape\<close> adds a tuple to an
  int64 array and wraps again.
\<close>

definition boxes_from_grid_no_offset :: "box \<Rightarrow> vec3 \<Rightarrow> error + box list" where
  "boxes_from_grid_no_offset bounding_box bshape =
     (let aligned_start = vmul64 (vdiv64 (fst bounding_box) bshape) bshape;
          aligned_stop = vmul64 (vdiv64 (vsub64 (vadd64 (snd bounding_box) bshape) (1, 1, 1)) bshape) bshape
      in case ndrange aligned_start aligned_stop bshape of
           Inl e \<Rightarrow> Inl e
         | Inr starts \<Rightarrow> Inr (map (\<lambda>block_start. (block_start, vadd64 block_start bshape)) starts))"

text \<open>
  \<^verbatim>\<open>boxes_from_grid\<close>: the shortcut when no component of the offset is set, the shifted walk
  otherwise (\<^verbatim>\<open>bounding_box - grid.offset\<close> and \<^verbatim>\<open>box += grid_offset\<close> on int64 arrays).
\<close>

definition boxes_from_grid :: "box \<Rightarrow> Grid \<Rightarrow> error + box list" where
  "boxes_from_grid bounding_box grid =
     (if offset grid = (0, 0, 0)
      then boxes_from_grid_no_offset bounding_box (block_shape grid)
      else (case boxes_from_grid_no_offset (box_sub64 bounding_box (offset grid)) (block_shape grid) of
              Inl e \<Rightarrow> Inl e
            | Inr boxes \<Rightarrow> Inr (map (\<lambda>box. box_add64 box (offset grid)) boxes)))"

definition clipped_boxes_from_grid :: "box \<Rightarrow> Grid \<Rightarrow> error + box list" where
  "clipped_boxes_from_grid bounding_box grid =
     (case boxes_from_grid bounding_box grid of
        Inl e \<Rightarrow> Inl e
      | Inr boxes \<Rightarrow> Inr (map (\<lambda>box. box_intersection box bounding_box) boxes))"

text \<open>
  Closed forms used in the proofs, in unbounded integers: the block starts along one axis, the
  block starts of a bounding box on an origin-aligned grid, and the blocks of a bounding box
  on a grid.  \<open>axis_fits\<close> lists, for one axis, the values that have to be int64 for the walk
  of the code not to wrap: the inputs, the shifted bounds, and the bounds widened by one block
  before and after the shift; \<open>no_int64_wrap\<close> asks it of the three axes.
\<close>

definition axis_fits :: "int \<Rightarrow> int \<Rightarrow> int \<Rightarrow> int \<Rightarrow> bool" where
  "axis_fits lo hi off s =
     (in_int64 lo \<and> in_int64 hi \<and> in_int64 off \<and> in_int64 s
      \<and> in_int64 (lo - off) \<and> in_int64 (hi - off)
      \<and> in_int64 (lo - off - s) \<and> in_int64 (hi - off + s)
      \<and> in_int64 (lo - s) \<and> in_int64 (hi + s))"

definition no_int64_wrap :: "box \<Rightarrow> Grid \<Rightarrow> bool" where
  "no_int64_wrap B G =
     (case (B, offset G, block_shape G) of (((z0, y0, x0), (z1, y1, x1)), (oz, oy, ox), (sz, sy, sx)) \<Rightarrow>
        axis_fits z0 z1 oz sz \<and> axis_fits y0 y1 oy sy \<and> axis_fits x0 x1 ox sx)"

definition axis_starts :: "int \<Rightarrow> int \<Rightarrow> int \<Rightarrow> int list" where
  "axis_starts lo hi s =
     map (\<lambda>k. (lo div s) * s + int k * s)
       [0..<nat ((((hi + s - 1) div s) * s - (lo div s) * s + s - 1) div s)]"

definition grid_starts :: "box \<Rightarrow> vec3 \<Rightarrow> vec3 list" where
  "grid_starts B bs =
     (case (B, bs) of (((z0, y0, x0), (z1, y1, x1)), (sz, sy, sx)) \<Rightarrow>
        List.product (axis_starts z0 z1 sz) (List.product (axis_starts y0 y1 sy) (axis_starts x0 x1 sx)))"

definition grid_boxes :: "box \<Rightarrow> Grid \<Rightarrow> box list" where
  "grid_boxes B G =
     map (\<lambda>st. box_add (st, vadd st (block_shape G)) (offset G))
       (grid_starts (box_sub B (offset G)) (block_shape G))"

section \<open>Volumes and bricks\<close>

text \<open>
  A numpy array of three dimensions: its shape (never negative, hence \<open>nat\<close>) and its
  items by index.  Only indices inside the shape are ever read: every access below is guarded
  the way the code guards it.
\<close>

type_synonym shape3 = "nat \<times> nat \<times> nat"

fun vint :: "shape3 \<Rightarrow> vec3" where
  "vint (a, b, c) = (int a, int b, int c)"

fun vnat :: "vec3 \<Rightarrow> shape3" where
  "vnat (a, b, c) = (nat a, nat b, nat c)"

record 'a ndarray =
  shape :: shape3
  item :: "vec3 \<Rightarrow> 'a"

text \<open>\<^verbatim>\<open>np.zeros(shape, dtype)\<close>: a negative dimension raises \<^verbatim>\<open>ValueError\<close>.\<close>

definition np_zeros :: "vec3 \<Rightarrow> error + ('a::zero) ndarray" where
  "np_zeros s =
     (if vle (0, 0, 0) s then Inr \<lparr>shape = vnat s, item = (\<lambda>_. 0)\<rparr> else Inl ValueError)"

text \<open>
  Modelled from the spec: \<^verbatim>\<open>extract_subvol\<close> of \<^verbatim>\<open>DVIDSparkServices.util\<close> is not among the
  sources.  It copies the sub-buffer \<^verbatim>\<open>array[box]\<close>; a box that leaves the array is refused
  rather than read.
\<close>

definition extract_subvol :: "'a ndarray \<Rightarrow> box \<Rightarrow> error + 'a ndarray" where
  "extract_subvol array box =
     (if \<not> (vle (0, 0, 0) (fst box) \<and> vle (snd box) (vint (shape array)))
      then Inl (AssertionError [])
      else Inr \<lparr>shape = vnat (vsub (snd box) (fst box)),
                item = (\<lambda>p. item array (vadd p (fst box)))\<rparr>)"

text \<open>
  Modelled from the spec: \<^verbatim>\<open>overwrite_subvol\<close> of \<^verbatim>\<open>DVIDSparkServices.util\<close> is not among the
  sources.  It overwrites \<^verbatim>\<open>array[box]\<close> with the given sub-array, which must have the shape
  of the box; a box that leaves the array is refused.  The array is mutated in place: the
  model returns the new array.
\<close>

definition overwrite_subvol :: "'a ndarray \<Rightarrow> box \<Rightarrow> 'a ndarray \<Rightarrow> error + 'a ndarray" where
  "overwrite_subvol array box subarray =
     (if \<not> (vle (0, 0, 0) (fst box) \<and> vle (snd box) (vint (shape array)))
      then Inl (AssertionError [])
      else if shape subarray \<noteq> vnat (vsub (snd box) (fst box))
      then Inl ValueError
      else Inr (array\<lparr>item := (\<lambda>p. if in_box p box then item subarray (vsub p (fst box))
                                      else item array p)\<rparr>))"

record 'a Brick =
  logical_box :: box
  physical_box :: box
  volume :: "'a ndarray"

text \<open>\<^verbatim>\<open>Brick.__init__\<close> with its three assertions, in the order of the code.\<close>

definition Brick_init :: "box \<Rightarrow> box \<Rightarrow> 'a ndarray \<Rightarrow> error + 'a Brick" where
  "Brick_init lbox pbox vol =
     (if vsub (snd pbox) (fst pbox) \<noteq> vint (shape vol) then Inl (AssertionError [])
      else if \<not> vle (fst lbox) (fst pbox) then Inl (AssertionError [])
      else if \<not> vle (snd pbox) (snd lbox) then Inl (AssertionError [])
      else Inr \<lparr>logical_box = lbox, physical_box = pbox, volume = vol\<rparr>)"

text \<open>The value a brick holds at a global coordinate of its physical box.\<close>

definition brick_voxel :: "'a Brick \<Rightarrow> vec3 \<Rightarrow> 'a" where
  "brick_voxel b p = item (volume b) (vsub p (fst (physical_box b)))"

text \<open>The integrity invariant of a brick.\<close>

definition brick_ok :: "'a Brick \<Rightarrow> bool" where
  "brick_ok b =
     (vle (fst (logical_box b)) (fst (physical_box b))
      \<and> vle (snd (physical_box b)) (snd (logical_box b))
      \<and> vint (shape (volume b)) = vsub (snd (physical_box b)) (fst (physical_box b)))"

text \<open>A loop body that may raise, run over a list: the first error ends the loop.\<close>

fun map_result :: "('a \<Rightarrow> error + 'b) \<Rightarrow> 'a list \<Rightarrow> error + 'b list" where
  "map_result f [] = Inr []"
| "map_result f (x # xs) =
     (case f x of
        Inl e \<Rightarrow> Inl e
      | Inr y \<Rightarrow> (case map_result f xs of Inl e \<Rightarrow> Inl e | Inr ys \<Rightarrow> Inr (y # ys)))"

text \<open>\<^verbatim>\<open>split_brick\<close>: one fragment per block of the new grid met by the physical box.\<close>

definition split_brick :: "Grid \<Rightarrow> 'a Brick \<Rightarrow> error + (box \<times> 'a Brick) list" where
  "split_brick new_grid original_brick =
     (case boxes_from_grid (physical_box original_brick) new_grid of
        Inl e \<Rightarrow> Inl e
      | Inr boxes \<Rightarrow>
          map_result (\<lambda>new_logical_box.
            let split_box = box_intersection new_logical_box (physical_box original_brick);
                split_box_internal = box_sub split_box (fst (physical_box original_brick))
            in case extract_subvol (volume original_brick) split_box_internal of
                 Inl e \<Rightarrow> Inl e
               | Inr fragment_vol \<Rightarrow>
                   (case Brick_init new_logical_box split_box fragment_vol of
                      Inl e \<Rightarrow> Inl e
                    | Inr fragment_brick \<Rightarrow> Inr (new_logical_box, fragment_brick)))
            boxes)"

text \<open>The loop of \<^verbatim>\<open>assemble_brick_fragments\<close> that writes each fragment into the final volume.\<close>

fun overwrite_fragments :: "'a ndarray \<Rightarrow> vec3 \<Rightarrow> 'a Brick list \<Rightarrow> error + 'a ndarray" where
  "overwrite_fragments final_volume origin [] = Inr final_volume"
| "overwrite_fragments final_volume origin (frag # frags) =
     (case overwrite_subvol final_volume (box_sub (physical_box frag) origin) (volume frag) of
        Inl e \<Rightarrow> Inl e
      | Inr v \<Rightarrow> overwrite_fragments v origin frags)"

text \<open>
  \<^verbatim>\<open>assemble_brick_fragments\<close>.  An empty list fails at \<^verbatim>\<open>logical_boxes[0]\<close>; the final physical
  box is the componentwise min of the starts and max of the stops.
\<close>

definition assemble_brick_fragments :: "('a::zero) Brick list \<Rightarrow> error + 'a Brick" where
  "assemble_brick_fragments fragments =
     (case fragments of
        [] \<Rightarrow> Inl IndexError
      | frag0 # rest \<Rightarrow>
          if \<not> list_all (\<lambda>frag. logical_box frag = logical_box frag0) fragments
          then Inl (AssertionError ''Cannot assemble brick fragments from different logical boxes. They belong to different bricks!'')
          else
            let final_logical_box = logical_box frag0;
                final_physical_box =
                  (fold vmin (map (\<lambda>frag. fst (physical_box frag)) rest) (fst (physical_box frag0)),
                   fold vmax (map (\<lambda>frag. snd (physical_box frag)) rest) (snd (physical_box frag0)))
            in if \<not> vle (fst final_logical_box) (fst final_physical_box) then Inl (AssertionError [])
               else if \<not> vle (snd final_physical_box) (snd final_logical_box) then Inl (AssertionError [])
               else (case np_zeros (vsub (snd final_physical_box) (fst final_physical_box)) of
                       Inl e \<Rightarrow> Inl e
                     | Inr zeros \<Rightarrow>
                         (case overwrite_fragments zeros (fst final_physical_box) fragments of
                            Inl e \<Rightarrow> Inl e
                          | Inr final_volume \<Rightarrow>
                              Brick_init final_logical_box final_physical_box final_volume)))"

text \<open>Boxes that share no voxel, pairwise along a list: the intersection box is empty.\<close>

definition box_empty :: "box \<Rightarrow> bool" where
  "box_empty b = (\<not> vless (fst b) (snd b))"

fun disjoint_boxes :: "box list \<Rightarrow> bool" where
  "disjoint_boxes [] = True"
| "disjoint_boxes (b # bs) = (list_all (\<lambda>c. box_empty (box_intersection b c)) bs \<and> disjoint_boxes bs)"

definition bounding_box_of :: "'a Brick list \<Rightarrow> box" where
  "bounding_box_of fragments =
     (fold vmin (map (\<lambda>frag. fst (physical_box frag)) (tl fragments)) (fst (physical_box (hd fragments))),
      fold vmax (map (\<lambda>frag. snd (physical_box frag)) (tl fragments)) (snd (physical_box (hd fragments))))"

text \<open>Two one-voxel fragments of one block, with a gap of one voxel between them.\<close>

definition frag_a :: "nat Brick" where
  "frag_a = \<lparr>logical_box = ((0, 0, 0), (4, 1, 1)), physical_box = ((0, 0, 0), (1, 1, 1)),
             volume = \<lparr>shape = (1, 1, 1), item = (\<lambda>_. 5)\<rparr>\<rparr>"

definition frag_b :: "nat Brick" where
  "frag_b = \<lparr>logical_box = ((0, 0, 0), (4, 1, 1)), physical_box = ((2, 0, 0), (3, 1, 1)),
             volume = \<lparr>shape = (1, 1, 1), item = (\<lambda>_. 7)\<rparr>\<rparr>"














section \<open>Downsampling\<close>

definition DOWNSAMPLE_METHODS :: "string list" where
  "DOWNSAMPLE_METHODS = [''subsample'', ''zoom'', ''grayscale'', ''mode'', ''labels'', ''label'']"

text \<open>
  \<^verbatim>\<open>volume[(slice(None, None, factor),) * volume.ndim]\<close>: every \<open>factor\<close>-th item along each axis
  (from the last item backwards when the step is negative); a zero step raises \<^verbatim>\<open>ValueError\<close>.
\<close>

definition strided_length :: "nat \<Rightarrow> int \<Rightarrow> nat" where
  "strided_length n step = nat ((int n + \<bar>step\<bar> - 1) div \<bar>step\<bar>)"

definition strided_index :: "nat \<Rightarrow> int \<Rightarrow> int \<Rightarrow> int" where
  "strided_index n step i = (if 0 < step then i * step else int n - 1 + i * step)"

definition subsample :: "'a ndarray \<Rightarrow> int \<Rightarrow> error + 'a ndarray" where
  "subsample vol factor =
     (if factor = 0 then Inl ValueError
      else case shape vol of (nz, ny, nx) \<Rightarrow>
        Inr \<lparr>shape = (strided_length nz factor, strided_length ny factor, strided_length nx factor),
             item = (\<lambda>(z, y, x). item vol (strided_index nz factor z, strided_index ny factor y,
                                               strided_index nx factor x))\<rparr>)"

text \<open>
  \<^verbatim>\<open>downsample\<close>.  \<^verbatim>\<open>scipy.ndimage.zoom\<close> and \<^verbatim>\<open>dvidutils.downsample_labels\<close> belong to other
  libraries: they are parameters, and each may raise instead of returning (\<open>zoom\<close> is given
  the factor; the code passes \<^verbatim>\<open>1/factor\<close>, which raises \<^verbatim>\<open>ZeroDivisionError\<close> for a zero factor
  before the library is called).  The remainder is numpy's: \<^verbatim>\<open>shape % 0\<close> is 0 in every
  component, so a zero factor passes the assertion on the volume dimensions.
\<close>

definition downsample ::
    "('a ndarray \<Rightarrow> int \<Rightarrow> error + 'a ndarray) \<Rightarrow> ('a ndarray \<Rightarrow> int \<Rightarrow> bool \<Rightarrow> error + 'a ndarray)
     \<Rightarrow> 'a ndarray \<Rightarrow> int \<Rightarrow> string \<Rightarrow> error + 'a ndarray" where
  "downsample zoom downsample_labels vol factor method =
     (if method \<notin> set DOWNSAMPLE_METHODS then Inl (AssertionError [])
      else if vmod (vint (shape vol)) (factor, factor, factor) \<noteq> (0, 0, 0)
      then Inl (AssertionError ''Volume dimensions must be a multiple of the downsample factor.'')
      else if method = ''subsample'' then subsample vol factor
      else if method \<in> {''zoom'', ''grayscale''}
      then (if factor = 0 then Inl ZeroDivisionError else zoom vol factor)
      else if method = ''mode'' then downsample_labels vol factor False
      else if method \<in> {''labels'', ''label''} then downsample_labels vol factor True
      else Inl (AssertionError ''Shouldn't get here.''))"

text \<open>Every component of a shape is a multiple of the factor.\<close>

definition shape_multiple_of :: "shape3 \<Rightarrow> int \<Rightarrow> bool" where
  "shape_multiple_of s factor =
     (case s of (nz, ny, nx) \<Rightarrow> factor dvd int nz \<and> factor dvd int ny \<and> factor dvd int nx)"

text \<open>A 4 x 4 x 4 volume and a 3 x 4 x 4 volume, each holding its z index.\<close>

definition cube4 :: "int ndarray" where
  "cube4 = \<lparr>shape = (4, 4, 4), item = (\<lambda>(z, y, x). z)\<rparr>"

definition slab3 :: "int ndarray" where
  "slab3 = \<lparr>shape = (3, 4, 4), item = (\<lambda>(z, y, x). z)\<rparr>"

section \<open>Label maps over collections of bricks\<close>

text \<open>
  Collections of bricks are objects with an identity: a store holds the Brick objects and the
  collections (RDDs), each by its index.  A collection lists references to Brick objects and
  says whether it is persisted.
\<close>

record collection =
  elements :: "nat list"
  persisted :: bool

record 'a store =
  brick_objects :: "'a Brick list"
  collections :: "collection list"

text \<open>
  Modelled from the spec: \<^verbatim>\<open>rt.map\<close> of \<^verbatim>\<open>DVIDSparkServices.rddtools\<close> is not among the sources.
  It makes a new collection, distinct from its input, of the images of the input's elements;
  the new collection is not persisted.
\<close>

definition rt_map :: "(nat \<Rightarrow> nat) \<Rightarrow> 'a store \<Rightarrow> nat \<Rightarrow> 'a store \<times> nat" where
  "rt_map f st c =
     (st\<lparr>collections := collections st
            @ [\<lparr>elements = map f (elements (collections st ! c)), persisted = False\<rparr>]\<rparr>,
      length (collections st))"

text \<open>
  Modelled from the spec: \<^verbatim>\<open>unpersist\<close> of \<^verbatim>\<open>DVIDSparkServices.util\<close> is not among the sources.
  It releases the cache of the one collection it is given.
\<close>

definition unpersist :: "'a store \<Rightarrow> nat \<Rightarrow> 'a store" where
  "unpersist st c =
     st\<lparr>collections := (collections st)[c := (collections st ! c)\<lparr>persisted := False\<rparr>]\<rparr>"

text \<open>
  \<^verbatim>\<open>LabelMapper(domain, codomain).apply_inplace(volume, allow_unmapped=True)\<close> of dvidutils, as
  the spec has it: a mapped label is replaced, an unmapped one passes through.
\<close>

definition apply_inplace :: "('a \<times> 'a) list \<Rightarrow> 'a ndarray \<Rightarrow> 'a ndarray" where
  "apply_inplace mapping_pairs vol =
     vol\<lparr>item := (\<lambda>p. case map_of mapping_pairs (item vol p) of None \<Rightarrow> item vol p | Some l \<Rightarrow> l)\<rparr>"

text \<open>
  \<^verbatim>\<open>apply_label_mapping\<close>: the volume of every brick of the collection is remapped in place; the
  result is a new collection of the same Brick objects, computed and persisted.
\<close>

definition remap_bricks :: "('a \<times> 'a) list \<Rightarrow> 'a Brick list \<Rightarrow> nat list \<Rightarrow> 'a Brick list" where
  "remap_bricks mapping_pairs objs refs =
     fold (\<lambda>r objs. objs[r := (objs ! r)\<lparr>volume := apply_inplace mapping_pairs (volume (objs ! r))\<rparr>])
       refs objs"

definition apply_label_mapping :: "'a store \<Rightarrow> nat \<Rightarrow> ('a \<times> 'a) list \<Rightarrow> 'a store \<times> nat" where
  "apply_label_mapping st bricks mapping_pairs =
     (st\<lparr>brick_objects := remap_bricks mapping_pairs (brick_objects st) (elements (collections st ! bricks)),
         collections := collections st
            @ [\<lparr>elements = elements (collections st ! bricks), persisted = True\<rparr>]\<rparr>,
      length (collections st))"

record labelmap_config =
  labelmap_file :: string
  labelmap_file_type :: string

text \<open>
  \<^verbatim>\<open>apply_labelmap_to_bricks\<close>.  \<^verbatim>\<open>load_labelmap\<close> reads the file system: it is a parameter.
\<close>

definition apply_labelmap_to_bricks ::
    "(labelmap_config \<Rightarrow> string \<Rightarrow> ('a \<times> 'a) list) \<Rightarrow> 'a store \<Rightarrow> nat \<Rightarrow> labelmap_config \<Rightarrow> string
     \<Rightarrow> bool \<Rightarrow> 'a store \<times> nat" where
  "apply_labelmap_to_bricks load_labelmap st bricks config working_dir unpersist_original =
     (let path = labelmap_file config in
      if path = [] then
        (if \<not> unpersist_original then rt_map (\<lambda>brick. brick) st bricks else (st, bricks))
      else
        let mapping_pairs = load_labelmap config working_dir;
            (st1, remapped_bricks) = apply_label_mapping st bricks mapping_pairs;
            st2 = (if unpersist_original then unpersist st1 bricks else st1)
        in (st2, remapped_bricks))"

text \<open>A store with one brick in one persisted collection.\<close>

definition one_brick_store :: "nat store" where
  "one_brick_store =
     \<lparr>brick_objects = [\<lparr>logical_box = ((0, 0, 0), (1, 1, 1)), physical_box = ((0, 0, 0), (1, 1, 1)),
                         volume = \<lparr>shape = (1, 1, 1), item = (\<lambda>_. 7)\<rparr>\<rparr>],
      collections = [\<lparr>elements = [0], persisted = True\<rparr>]\<rparr>"

section \<open>Stitching: the global merge\<close>

text \<open>
  The driver loop of \<^verbatim>\<open>Segmentor.stitch\<close> over the collected \<^verbatim>\<open>merge_list\<close>.  The two dicts are
  finite maps: \<^verbatim>\<open>body1body2\<close> from a label to the label it is merged into, \<^verbatim>\<open>body2body1\<close> from
  a label to the set of labels merged into it.  The inner \<^verbatim>\<open>for tbody in body2body1[body1]\<close>
  redirects every member of that set, in whatever order the set is walked.
\<close>

type_synonym merge_maps = "(nat \<rightharpoonup> nat) \<times> (nat \<rightharpoonup> nat set)"

definition merge_step :: "nat \<times> nat \<Rightarrow> merge_maps \<Rightarrow> merge_maps" where
  "merge_step merger maps =
     (case maps of (body1body2, body2body1) \<Rightarrow>
      let body1 = (case body1body2 (fst merger) of Some b \<Rightarrow> b | None \<Rightarrow> fst merger);
          body2 = (case body1body2 (snd merger) of Some b \<Rightarrow> b | None \<Rightarrow> snd merger);
          body2body1_a = (if body2 \<notin> dom body2body1 then body2body1(body2 \<mapsto> {}) else body2body1);
          body2body1_b = body2body1_a(body2 \<mapsto> insert body1 (the (body2body1_a body2)));
          body1body2_a = body1body2(body1 \<mapsto> body2)
      in if body1 \<in> dom body2body1_b
         then let tbodies = the (body2body1_b body1)
              in ((\<lambda>k. if k \<in> tbodies then Some body2 else body1body2_a k),
                  body2body1_b(body2 \<mapsto> the (body2body1_b body2) \<union> tbodies))
         else (body1body2_a, body2body1_b))"

definition global_merge :: "(nat \<times> nat) list \<Rightarrow> merge_maps" where
  "global_merge merge_list = fold merge_step merge_list (Map.empty, Map.empty)"

text \<open>
  The remapping that \<^verbatim>\<open>relabel\<close> builds from the broadcast \<^verbatim>\<open>zip(body1body2.keys(),
  body1body2.values())\<close>: a label that is a key is replaced by its value, any other label stays.
\<close>

definition final_label :: "(nat \<times> nat) list \<Rightarrow> nat \<Rightarrow> nat" where
  "final_label merge_list l =
     (case fst (global_merge merge_list) l of Some b \<Rightarrow> b | None \<Rightarrow> l)"

text \<open>
  The spec's words: connected components of the graph of the candidate edges, each
  represented by its numerically smallest label.
\<close>

definition connected :: "(nat \<times> nat) list \<Rightarrow> nat \<Rightarrow> nat \<Rightarrow> bool" where
  "connected edges x y = ((x, y) \<in> (set edges \<union> (set edges)\<inverse>)\<^sup>*)"

definition smallest_in_component :: "(nat \<times> nat) list \<Rightarrow> nat \<Rightarrow> nat" where
  "smallest_in_component edges l = (LEAST m. connected edges l m)"

definition find_label :: "(nat \<rightharpoonup> nat) \<Rightarrow> nat \<Rightarrow> nat" where
  "find_label m x = (case m x of Some b \<Rightarrow> b | None \<Rightarrow> x)"

definition is_root :: "(nat \<rightharpoonup> nat) \<Rightarrow> nat \<Rightarrow> bool" where
  "is_root m r = (m r = None \<or> m r = Some r)"

definition merge_inv :: "merge_maps \<Rightarrow> bool" where
  "merge_inv maps =
     (case maps of (m, s) \<Rightarrow>
        (\<forall>k v. m k = Some v \<longrightarrow> is_root m v)
        \<and> (\<forall>k r. m k = Some r \<longrightarrow> (\<exists>S. s r = Some S \<and> k \<in> S))
        \<and> (\<forall>r S t. is_root m r \<longrightarrow> s r = Some S \<longrightarrow> t \<in> S \<longrightarrow> m t = Some r))"

section \<open>Stitching: candidate merges of one boundary pair\<close>

text \<open>
  \<^verbatim>\<open>stitcher\<close> of \<^verbatim>\<open>Segmentor.stitch\<close>.  The two boundary arrays have one shape, so they are given
  as the list of their label pairs \<open>(body1, body2)\<close> in the order of \<^verbatim>\<open>numpy.ndenumerate\<close>;
  \<open>plane\<close> lists the pairs of the interface slab \<^verbatim>\<open>[z1:z2, y1:y2, x1:x2]\<close>, which the code
  selects with \<^verbatim>\<open>SubvolumeRegion.touches\<close> (not among the sources).  A dict that is walked with
  \<^verbatim>\<open>items()\<close> is an association list in insertion order.
\<close>

definition hard_lb :: nat where "hard_lb = 50"

definition liberal_lb :: nat where "liberal_lb = 1000"

text \<open>
  \<^verbatim>\<open>max_val / float(total_val) < conservative_overlap\<close> and \<^verbatim>\<open>... > conservative_overlap\<close> with
  \<^verbatim>\<open>conservative_overlap = 0.90\<close>, as comparisons of the exact ratio with 9/10: for voxel
  counts below \<open>10^14\<close> the doubles compare the same way.
\<close>

definition below_conservative :: "nat \<Rightarrow> nat \<Rightarrow> bool" where
  "below_conservative max_val total_val = (10 * max_val < 9 * total_val)"

definition above_conservative :: "nat \<Rightarrow> nat \<Rightarrow> bool" where
  "above_conservative max_val total_val = (9 * total_val < 10 * max_val)"

text \<open>\<^verbatim>\<open>numpy.unique\<close>: the sorted distinct values.\<close>

definition np_unique :: "nat list \<Rightarrow> nat list" where
  "np_unique xs = sort (remdups xs)"

type_synonym votes = "(nat \<times> (nat \<times> nat) list) list"

text \<open>One empty dict per non-zero label.\<close>

definition empty_votes :: "nat list \<Rightarrow> votes" where
  "empty_votes labels = map (\<lambda>body. (body, [])) (filter (\<lambda>body. body \<noteq> 0) (np_unique labels))"

text \<open>
  The traversal that counts the overlaps: a pair with a zero on either side is skipped; the
  outer key is looked up (a missing key would raise \<^verbatim>\<open>KeyError\<close>), the inner count starts at 0
  and is incremented.
\<close>

fun tally :: "(nat \<times> nat) list \<Rightarrow> votes \<Rightarrow> error + votes" where
  "tally [] body2body = Inr body2body"
| "tally ((outer, inner) # pairs) body2body =
     (if outer = 0 \<or> inner = 0 then tally pairs body2body
      else case map_of body2body outer of
             None \<Rightarrow> Inl KeyError
           | Some bodydict \<Rightarrow>
               tally pairs
                 (AList.update outer
                    (AList.update inner (case map_of bodydict inner of None \<Rightarrow> 0 + 1 | Some c \<Rightarrow> c + 1)
                       bodydict)
                    body2body))"

text \<open>The votes of one side: keyed by that side's labels, counting the other side's.\<close>

definition overlap_votes :: "nat \<Rightarrow> (nat \<times> nat) list \<Rightarrow> error + votes" where
  "overlap_votes stitch_mode pairs =
     (if stitch_mode > 0 then tally pairs (empty_votes (map fst pairs)) else Inr [])"

text \<open>
  The search for the best overlap: \<open>(bodysave, max_val, total_val)\<close>, starting from
  \<open>(-1, hard_lb, 0)\<close>; \<open>None\<close> is the code's \<open>-1\<close>.
\<close>

fun best_match_loop :: "(nat \<times> nat) list \<Rightarrow> nat option \<times> nat \<times> nat \<Rightarrow> nat option \<times> nat \<times> nat" where
  "best_match_loop [] acc = acc"
| "best_match_loop ((body, val) # items) (bodysave, max_val, total_val) =
     best_match_loop items
       (if val > max_val then (Some body, val, total_val + val) else (bodysave, max_val, total_val + val))"

definition best_match :: "(nat \<times> nat) list \<Rightarrow> nat option \<times> nat \<times> nat" where
  "best_match bodydict = best_match_loop bodydict (None, hard_lb, 0)"

record stitch_state =
  merge_list :: "(nat \<times> nat) list"
  mutual_list :: "nat \<rightharpoonup> (nat \<rightharpoonup> nat)"
  retired_list :: "(nat \<times> nat) set"

text \<open>The body of the first loop, over the labels of \<^verbatim>\<open>boundary2\<close>.\<close>

definition first_pass_step :: "nat \<Rightarrow> nat set \<Rightarrow> nat \<times> (nat \<times> nat) list \<Rightarrow> stitch_state \<Rightarrow> stitch_state" where
  "first_pass_step stitch_mode eligible_bodies entry st =
     (case entry of (body2, bodydict) \<Rightarrow>
      if body2 \<in> eligible_bodies then
        (case best_match bodydict of (bodysave, max_val, total_val) \<Rightarrow>
          (case bodysave of
             None \<Rightarrow> st
           | Some body1 \<Rightarrow>
               if stitch_mode = 1 \<and> below_conservative max_val total_val then st
               else if stitch_mode = 3 \<and> above_conservative max_val total_val \<and> max_val > liberal_lb
               then st\<lparr>merge_list := merge_list st @ [(body1, body2)],
                       retired_list := insert (body1, body2) (retired_list st)\<rparr>
               else st\<lparr>mutual_list := (mutual_list st)
                         (body1 \<mapsto> (case mutual_list st body1 of None \<Rightarrow> Map.empty | Some partners \<Rightarrow> partners)
                                      (body2 \<mapsto> max_val))\<rparr>))
      else st)"

text \<open>The body of the second loop, over the labels of \<^verbatim>\<open>boundary1\<close>.\<close>

definition second_pass_step :: "nat \<Rightarrow> nat set \<Rightarrow> nat \<times> (nat \<times> nat) list \<Rightarrow> stitch_state \<Rightarrow> stitch_state" where
  "second_pass_step stitch_mode eligible_bodies entry st =
     (case entry of (body1, bodydict) \<Rightarrow>
      if body1 \<in> eligible_bodies then
        (case best_match bodydict of (bodysave, max_val, total_val) \<Rightarrow>
          if (case bodysave of None \<Rightarrow> False | Some body2 \<Rightarrow> (body1, body2) \<in> retired_list st) then st
          else (case bodysave of
             None \<Rightarrow> st
           | Some body2 \<Rightarrow>
               if stitch_mode = 1 \<and> below_conservative max_val total_val then st
               else if stitch_mode = 3 \<and> above_conservative max_val total_val \<and> max_val > liberal_lb
               then st\<lparr>merge_list := merge_list st @ [(body1, body2)]\<rparr>
               else (case mutual_list st body1 of
                       Some partners \<Rightarrow>
                         if partners body2 \<noteq> None then st\<lparr>merge_list := merge_list st @ [(body1, body2)]\<rparr>
                         else st
                     | None \<Rightarrow> st)))
      else st)"

definition stitcher :: "nat \<Rightarrow> (nat \<times> nat) list \<Rightarrow> (nat \<times> nat) list \<Rightarrow> nat \<Rightarrow> nat \<Rightarrow> error + (nat \<times> nat) list" where
  "stitcher stitch_mode voxels plane offset1 offset2 =
     (case overlap_votes stitch_mode (map prod.swap voxels) of
        Inl e \<Rightarrow> Inl e
      | Inr body2body \<Rightarrow>
          let st1 = fold (first_pass_step stitch_mode (set (map snd plane))) body2body
                      \<lparr>merge_list = [], mutual_list = Map.empty, retired_list = {}\<rparr>
          in (case overlap_votes stitch_mode voxels of
                Inl e \<Rightarrow> Inl e
              | Inr body1body \<Rightarrow>
                  let st2 = fold (second_pass_step stitch_mode (set (map fst plane))) body1body st1
                  in Inr (map (\<lambda>merger. (fst merger + offset1, snd merger + offset2)) (merge_list st2))))"

text \<open>
  \<^verbatim>\<open>relabel\<close> at one voxel: add the offset, put the background back to 0, then apply the
  broadcast pairs of \<^verbatim>\<open>body1body2\<close> (its keys are distinct, so the pairs act as the map).
\<close>

definition relabel :: "nat \<Rightarrow> (nat \<rightharpoonup> nat) \<Rightarrow> nat \<Rightarrow> nat" where
  "relabel label_offset body1body2 label =
     (let shifted = label + label_offset;
          l = (if shifted = label_offset then 0 else shifted)
      in case body1body2 l of Some b \<Rightarrow> b | None \<Rightarrow> l)"

text \<open>All overlap pairs of an example boundary: label 1 meets 5 on 51 voxels, label 2 meets 5 on 459.\<close>

definition example_boundary :: "(nat \<times> nat) list" where
  "example_boundary = replicate 51 (1, 5) @ replicate 459 (2, 5)"

definition mutual_has :: "stitch_state \<Rightarrow> nat \<Rightarrow> nat \<Rightarrow> bool" where
  "mutual_has st body1 body2 =
     (case mutual_list st body1 of None \<Rightarrow> False | Some partners \<Rightarrow> partners body2 \<noteq> None)"

definition votes_nonzero :: "votes \<Rightarrow> bool" where
  "votes_nonzero d = (\<forall>entry \<in> set d. fst entry \<noteq> 0 \<and> (\<forall>item \<in> set (snd entry). fst item \<noteq> 0))"

definition edges_nonzero :: "stitch_state \<Rightarrow> bool" where
  "edges_nonzero st = (\<forall>merger \<in> set (merge_list st). fst merger \<noteq> 0 \<and> snd merger \<noteq> 0)"

definition labels_of :: "(nat \<times> nat) list \<Rightarrow> nat set" where
  "labels_of es = fst ` set es \<union> snd ` set es"

text \<open>
  The candidate edges that the driver collects: the merge lists of the stitchers of all
  boundary pairs, each given as its voxel pairs, its interface plane and its two offsets.
\<close>

definition collected_merge_list ::
    "nat \<Rightarrow> ((nat \<times> nat) list \<times> (nat \<times> nat) list \<times> nat \<times> nat) list \<Rightarrow> error + (nat \<times> nat) list" where
  "collected_merge_list stitch_mode boundaries =
     (case map_result (\<lambda>(voxels, plane, offset1, offset2). stitcher stitch_mode voxels plane offset1 offset2)
             boundaries of
        Inl e \<Rightarrow> Inl e
      | Inr mappings \<Rightarrow> Inr (concat mappings))"

section \<open>Re-gridding\<close>

text \<open>
  Modelled from the spec: \<^verbatim>\<open>rt.group_by_key\<close> of \<^verbatim>\<open>DVIDSparkServices.rddtools\<close> is not among the
  sources.  All values of one key land in one group, one group per key; the order of the
  groups is not specified (here: the order of the last occurrences of the keys).
\<close>

definition group_by_key :: "('k \<times> 'v) list \<Rightarrow> ('k \<times> 'v list) list" where
  "group_by_key kvs =
     map (\<lambda>k. (k, map snd (filter (\<lambda>kv. fst kv = k) kvs))) (remdups (map fst kvs))"

text \<open>
  \<^verbatim>\<open>realign_bricks_to_new_grid\<close> on a list of bricks: \<^verbatim>\<open>rt.flat_map\<close> of \<^verbatim>\<open>split_brick\<close>,
  \<^verbatim>\<open>rt.group_by_key\<close>, \<^verbatim>\<open>rt.map_values\<close> of \<^verbatim>\<open>assemble_brick_fragments\<close>.
  Modelled from the spec: \<^verbatim>\<open>rt.flat_map\<close> and \<^verbatim>\<open>rt.map_values\<close> of \<^verbatim>\<open>DVIDSparkServices.rddtools\<close> are
  not among the sources; on a list they are the concatenation of the results and the map over
  the values of the pairs, and the first exception raised ends the computation.
\<close>

definition realign_bricks_to_new_grid :: "Grid \<Rightarrow> ('a::zero) Brick list \<Rightarrow> error + (box \<times> 'a Brick) list" where
  "realign_bricks_to_new_grid new_grid original_bricks =
     (case map_result (split_brick new_grid) original_bricks of
        Inl e \<Rightarrow> Inl e
      | Inr split_results \<Rightarrow>
          let new_logical_boxes_and_brick_fragments = concat split_results;
              grouped_brick_fragments = group_by_key new_logical_boxes_and_brick_fragments
          in map_result (\<lambda>(key, fragments).
                           case assemble_brick_fragments fragments of
                             Inl e \<Rightarrow> Inl e
                           | Inr brick \<Rightarrow> Inr (key, brick))
               grouped_brick_fragments)"

text \<open>A block of a grid: block-shaped, its start on the grid.\<close>

definition grid_block :: "Grid \<Rightarrow> box \<Rightarrow> bool" where
  "grid_block g b =
     (snd b = vadd (fst b) (block_shape g)
      \<and> vmod (vsub (fst b) (offset g)) (block_shape g) = (0, 0, 0))"

text \<open>A wall of bricks on a grid: intact bricks, each on a block of the grid, no block twice.\<close>

definition brick_wall :: "Grid \<Rightarrow> 'a Brick list \<Rightarrow> bool" where
  "brick_wall g bricks =
     (list_all (\<lambda>b. brick_ok b \<and> grid_block g (logical_box b)) bricks
      \<and> distinct (map logical_box bricks))"

text \<open>The fragment of a brick that \<^verbatim>\<open>split_brick\<close> makes for a block of the new grid.\<close>

definition fragment_of :: "'a Brick \<Rightarrow> box \<Rightarrow> 'a Brick" where
  "fragment_of b new_logical_box =
     (let split_box = box_intersection new_logical_box (physical_box b) in
      \<lparr>logical_box = new_logical_box, physical_box = split_box,
       volume = \<lparr>shape = vnat (vsub (snd split_box) (fst split_box)),
                 item = (\<lambda>p. item (volume b) (vadd p (fst (box_sub split_box (fst (physical_box b))))))\<rparr>\<rparr>)"

text \<open>A box that is ordered and lies in a region.\<close>

definition within :: "box \<Rightarrow> box \<Rightarrow> bool" where
  "within b u = (vle (fst u) (fst b) \<and> vle (fst b) (snd b) \<and> vle (snd b) (snd u))"

text \<open>
  A brick of seven voxels that ends at the last int64 coordinate, and a wall of two bricks on
  the grid of block shape \<open>(2, 1, 1)\<close>: a full brick and a brick that holds only the first
  voxel of its block.
\<close>

definition edge_brick :: "nat Brick" where
  "edge_brick = \<lparr>logical_box = ((9223372036854775800, 0, 0), (9223372036854775807, 1, 1)),
                 physical_box = ((9223372036854775800, 0, 0), (9223372036854775807, 1, 1)),
                 volume = \<lparr>shape = (7, 1, 1), item = (\<lambda>_. 1)\<rparr>\<rparr>"

definition row_a :: "int Brick" where
  "row_a = \<lparr>logical_box = ((0, 0, 0), (2, 1, 1)), physical_box = ((0, 0, 0), (2, 1, 1)),
            volume = \<lparr>shape = (2, 1, 1), item = (\<lambda>(z, y, x). 10 + z)\<rparr>\<rparr>"

definition row_b :: "int Brick" where
  "row_b = \<lparr>logical_box = ((2, 0, 0), (4, 1, 1)), physical_box = ((2, 0, 0), (3, 1, 1)),
            volume = \<lparr>shape = (1, 1, 1), item = (\<lambda>(z, y, x). 20 + z)\<rparr>\<rparr>"

section \<open>Grid partitioning\<close>

lemma py_range_aligned:
  "0 < s \<Longrightarrow> py_range ((lo div s) * s) (((hi + s - 1) div s) * s) s = Inr (axis_starts lo hi s)"
  by (simp add: py_range_def axis_starts_def)

lemma block_count_aux:
  assumes "0 < (s::int)"
  shows "(A * s - B * s + s - 1) div s = A - B"
proof -
  have e: "A * s - B * s + s - 1 = (s - 1) + (A - B) * s"
    by (simp add: algebra_simps)
  have "((s - 1) + (A - B) * s) div s = A - B"
    using assms by (simp add: div_pos_pos_trivial)
  then show ?thesis by (simp only: e)
qed

lemma floor_block_bounds:
  assumes "0 < (s::int)"
  shows "(x div s) * s \<le> x" "x < (x div s) * s + s"
proof -
  have "x = (x div s) * s + x mod s" by simp
  moreover have "0 \<le> x mod s" "x mod s < s" using assms by simp_all
  ultimately show "(x div s) * s \<le> x" "x < (x div s) * s + s" by linarith+
qed

lemma axis_starts_set:
  assumes "0 < (s::int)"
  shows "set (axis_starts lo hi s) = {t. s dvd t \<and> (lo div s) * s \<le> t \<and> t < ((hi + s - 1) div s) * s}"
proof -
  let ?a = "lo div s" and ?b = "(hi + s - 1) div s"
  have set_eq: "set (axis_starts lo hi s) = (\<lambda>k. ?a * s + int k * s) ` {k. int k < ?b - ?a}"
    unfolding axis_starts_def block_count_aux[OF assms] by auto
  show ?thesis
  proof (rule set_eqI, rule iffI)
    fix t assume "t \<in> set (axis_starts lo hi s)"
    then obtain k where k: "t = ?a * s + int k * s" "int k < ?b - ?a" using set_eq by auto
    have "t = (?a + int k) * s" using k by (simp add: algebra_simps)
    moreover have "?a \<le> ?a + int k" "?a + int k < ?b" using k by auto
    ultimately show "t \<in> {t. s dvd t \<and> ?a * s \<le> t \<and> t < ?b * s}"
      using assms by (auto simp: mult_le_cancel_right mult_less_cancel_right)
  next
    fix t assume t: "t \<in> {t. s dvd t \<and> ?a * s \<le> t \<and> t < ?b * s}"
    then have "s dvd t" by simp
    then obtain m0 where "t = s * m0" unfolding dvd_def by blast
    then have m: "t = m0 * s" by simp
    have "?a * s \<le> m0 * s" "m0 * s < ?b * s" using t m by auto
    then have "?a \<le> m0" "m0 < ?b" using assms by (auto simp: mult_le_cancel_right mult_less_cancel_right)
    then have "int (nat (m0 - ?a)) < ?b - ?a" "t = ?a * s + int (nat (m0 - ?a)) * s"
      using m by (auto simp: algebra_simps)
    then show "t \<in> set (axis_starts lo hi s)" unfolding set_eq by blast
  qed
qed

lemma axis_starts_distinct: "0 < (s::int) \<Longrightarrow> distinct (axis_starts lo hi s)"
  by (auto simp: axis_starts_def distinct_map inj_on_def)

lemma axis_block_unique:
  assumes "0 < (s::int)" "s dvd t" "t \<le> x" "x < t + s"
  shows "t = (x div s) * s"
proof -
  obtain m0 where "t = s * m0" using assms(2) unfolding dvd_def by blast
  then have m: "t = m0 * s" by simp
  have "x = (x - t) + m0 * s" using m by simp
  then have "x div s = ((x - t) + m0 * s) div s" by simp
  also have "\<dots> = m0" using assms by (simp add: div_pos_pos_trivial)
  finally show ?thesis using m by simp
qed

lemma axis_cover:
  assumes "0 < (s::int)" "lo \<le> x" "x < hi"
  shows "(x div s) * s \<in> set (axis_starts lo hi s)"
proof -
  have "lo div s \<le> x div s" using assms by (simp add: zdiv_mono1)
  moreover have "x div s < (hi + s - 1) div s"
  proof -
    have "x + s \<le> hi + s - 1" using assms by simp
    then have "(x + s) div s \<le> (hi + s - 1) div s" using assms(1) by (simp add: zdiv_mono1)
    moreover have "(x + s) div s = x div s + 1"
      using assms(1) div_add_self2[of s x] by simp
    ultimately show ?thesis by linarith
  qed
  ultimately show "(x div s) * s \<in> set (axis_starts lo hi s)"
    using assms(1) by (simp add: axis_starts_set mult_le_cancel_right mult_less_cancel_right)
qed

lemma int64_id: "in_int64 x \<Longrightarrow> int64 x = x"
  unfolding int64_def in_int64_def by (simp add: mod_pos_pos_trivial)

lemma div_in_int64:
  assumes "0 < (s::int)" "in_int64 x"
  shows "in_int64 (x div s)"
proof (cases "0 \<le> x")
  case True
  have "x div s \<le> x div 1" using True assms(1) by (intro zdiv_mono2) simp_all
  moreover have "0 \<le> x div s" using True assms(1) by (simp add: pos_imp_zdiv_nonneg_iff)
  ultimately show ?thesis using assms(2) unfolding in_int64_def by simp
next
  case False
  then have neg: "x < 0" by simp
  have "x div 1 \<le> x div s" using neg assms(1) by (intro zdiv_mono2_neg) simp_all
  moreover have "x div s < 0" using neg assms(1) by (simp add: pos_imp_zdiv_neg_iff)
  ultimately show ?thesis using assms(2) unfolding in_int64_def by simp
qed

lemma in_int64_between: "in_int64 a \<Longrightarrow> in_int64 b \<Longrightarrow> a \<le> x \<Longrightarrow> x \<le> b \<Longrightarrow> in_int64 x"
  unfolding in_int64_def by simp

lemma axis_starts_range:
  assumes "0 < (s::int)" "t \<in> set (axis_starts lo hi s)"
  shows "lo - s < t" "t + s \<le> hi + s - 1"
proof -
  let ?a = "lo div s" and ?b = "(hi + s - 1) div s"
  have t: "s dvd t" "?a * s \<le> t" "t < ?b * s"
    using assms(2) unfolding axis_starts_set[OF assms(1)] by simp_all
  show "lo - s < t" using floor_block_bounds(2)[OF assms(1), of lo] t(2) by simp
  obtain m0 where "t = s * m0" using t(1) unfolding dvd_def by blast
  then have m: "t = m0 * s" by simp
  have "m0 * s < ?b * s" using t(3) m by simp
  then have "m0 < ?b" using assms(1) by (simp add: mult_less_cancel_right)
  then have "m0 + 1 \<le> ?b" by simp
  then have "(m0 + 1) * s \<le> ?b * s" using assms(1) by (simp only: mult_le_cancel_right) simp
  then have "t + s \<le> ?b * s" using m by (simp add: algebra_simps)
  then show "t + s \<le> hi + s - 1" using floor_block_bounds(1)[OF assms(1), of "hi + s - 1"] by simp
qed

lemma axis_no_wrap:
  assumes "0 < (s::int)" "in_int64 lo" "in_int64 hi" "in_int64 (lo - s)" "in_int64 (hi + s)"
  shows "int64 (int64 (lo div s) * s) = (lo div s) * s"
    and "int64 (int64 (int64 (int64 (hi + s) - 1) div s) * s) = ((hi + s - 1) div s) * s"
    and "t \<in> set (axis_starts lo hi s) \<Longrightarrow> int64 (t + s) = t + s"
proof -
  have "in_int64 ((lo div s) * s)"
    using floor_block_bounds[OF assms(1), of lo] assms(1,2,4) unfolding in_int64_def by simp
  then show "int64 (int64 (lo div s) * s) = (lo div s) * s"
    by (simp add: int64_id div_in_int64[OF assms(1,2)])
  have h1: "in_int64 (hi + s - 1)"
    using assms(1,3,5) unfolding in_int64_def by simp
  have "in_int64 (((hi + s - 1) div s) * s)"
    using floor_block_bounds[OF assms(1), of "hi + s - 1"] assms(1,3,5) unfolding in_int64_def by simp
  then show "int64 (int64 (int64 (int64 (hi + s) - 1) div s) * s) = ((hi + s - 1) div s) * s"
    by (simp add: int64_id assms(5) h1 div_in_int64[OF assms(1) h1])
  assume t: "t \<in> set (axis_starts lo hi s)"
  have "in_int64 (t + s)"
    using axis_starts_range[OF assms(1) t] assms(1,2,5) unfolding in_int64_def by simp
  then show "int64 (t + s) = t + s" by (rule int64_id)
qed

lemma no_offset_pos:
  assumes "vless (0, 0, 0) bs" and "no_int64_wrap B \<lparr>block_shape = bs, offset = (0, 0, 0)\<rparr>"
  shows "boxes_from_grid_no_offset B bs = Inr (map (\<lambda>st. (st, vadd st bs)) (grid_starts B bs))"
proof -
  obtain z0 y0 x0 z1 y1 x1 where B: "B = ((z0, y0, x0), (z1, y1, x1))" by (metis prod.exhaust)
  obtain sz sy sx where bs: "bs = (sz, sy, sx)" by (metis prod.exhaust)
  have pos: "0 < sz" "0 < sy" "0 < sx" using assms(1) bs by simp_all
  have fz: "in_int64 z0" "in_int64 z1" "in_int64 (z0 - sz)" "in_int64 (z1 + sz)"
    and fy: "in_int64 y0" "in_int64 y1" "in_int64 (y0 - sy)" "in_int64 (y1 + sy)"
    and fx: "in_int64 x0" "in_int64 x1" "in_int64 (x0 - sx)" "in_int64 (x1 + sx)"
    using assms(2) by (simp_all add: no_int64_wrap_def axis_fits_def B bs)
  note az = axis_no_wrap[OF pos(1) fz] and ay = axis_no_wrap[OF pos(2) fy] and ax = axis_no_wrap[OF pos(3) fx]
  have stops: "\<And>st. st \<in> set (grid_starts B bs) \<Longrightarrow> vadd64 st bs = vadd st bs"
  proof -
    fix st assume st: "st \<in> set (grid_starts B bs)"
    obtain a b c where abc: "st = (a, b, c)" by (metis prod.exhaust)
    have "a \<in> set (axis_starts z0 z1 sz)" "b \<in> set (axis_starts y0 y1 sy)" "c \<in> set (axis_starts x0 x1 sx)"
      using st by (simp_all add: grid_starts_def B bs abc)
    then show "vadd64 st bs = vadd st bs"
      by (simp add: abc bs az(3) ay(3) ax(3))
  qed
  have "boxes_from_grid_no_offset B bs = Inr (map (\<lambda>st. (st, vadd64 st bs)) (grid_starts B bs))"
    unfolding B bs boxes_from_grid_no_offset_def ndrange_def grid_starts_def
    by (simp add: az(1,2) ay(1,2) ax(1,2)
          py_range_aligned[OF pos(1)] py_range_aligned[OF pos(2)] py_range_aligned[OF pos(3)])
  also have "map (\<lambda>st. (st, vadd64 st bs)) (grid_starts B bs) = map (\<lambda>st. (st, vadd st bs)) (grid_starts B bs)"
    by (rule map_cong) (simp_all add: stops)
  finally show ?thesis .
qed

lemma grid_starts_distinct: "vless (0, 0, 0) bs \<Longrightarrow> distinct (grid_starts B bs)"
  by (cases B rule: prod.exhaust; cases bs rule: prod.exhaust)
     (auto simp: grid_starts_def distinct_product axis_starts_distinct split: prod.splits)

lemma grid_starts_cover:
  assumes "vless (0, 0, 0) bs" "in_box p B"
  shows "\<exists>st \<in> set (grid_starts B bs). in_box p (st, vadd st bs)"
proof -
  obtain z0 y0 x0 z1 y1 x1 where B: "B = ((z0, y0, x0), (z1, y1, x1))" by (metis prod.exhaust)
  obtain sz sy sx where bs: "bs = (sz, sy, sx)" by (metis prod.exhaust)
  obtain z y x where p: "p = (z, y, x)" by (metis prod.exhaust)
  have pos: "0 < sz" "0 < sy" "0 < sx" using assms bs by simp_all
  have inb: "z0 \<le> z" "z < z1" "y0 \<le> y" "y < y1" "x0 \<le> x" "x < x1"
    using assms(2) by (simp_all add: B p in_box_def)
  let ?st = "((z div sz) * sz, (y div sy) * sy, (x div sx) * sx)"
  have "?st \<in> set (grid_starts B bs)"
    using axis_cover[OF pos(1) inb(1,2)] axis_cover[OF pos(2) inb(3,4)] axis_cover[OF pos(3) inb(5,6)]
    by (simp add: grid_starts_def B bs)
  moreover have "in_box p (?st, vadd ?st bs)"
    using floor_block_bounds[OF pos(1), of z] floor_block_bounds[OF pos(2), of y]
      floor_block_bounds[OF pos(3), of x]
    by (simp add: in_box_def p bs)
  ultimately show ?thesis by blast
qed

lemma grid_starts_unique:
  assumes "vless (0, 0, 0) bs" "st \<in> set (grid_starts B bs)" "st' \<in> set (grid_starts B bs)"
    and "in_box p (st, vadd st bs)" "in_box p (st', vadd st' bs)"
  shows "st = st'"
proof -
  obtain z0 y0 x0 z1 y1 x1 where B: "B = ((z0, y0, x0), (z1, y1, x1))" by (metis prod.exhaust)
  obtain sz sy sx where bs: "bs = (sz, sy, sx)" by (metis prod.exhaust)
  obtain z y x where p: "p = (z, y, x)" by (metis prod.exhaust)
  obtain a b c where st: "st = (a, b, c)" by (metis prod.exhaust)
  obtain a' b' c' where st': "st' = (a', b', c')" by (metis prod.exhaust)
  have pos: "0 < sz" "0 < sy" "0 < sx" using assms bs by simp_all
  have d: "sz dvd a" "sy dvd b" "sx dvd c" "sz dvd a'" "sy dvd b'" "sx dvd c'"
    using assms(2,3) pos by (simp_all add: grid_starts_def B bs st st' axis_starts_set)
  have i: "a \<le> z" "z < a + sz" "b \<le> y" "y < b + sy" "c \<le> x" "x < c + sx"
    using assms(4) by (simp_all add: in_box_def p bs st)
  have i': "a' \<le> z" "z < a' + sz" "b' \<le> y" "y < b' + sy" "c' \<le> x" "x < c' + sx"
    using assms(5) by (simp_all add: in_box_def p bs st')
  have "a = a'" using axis_block_unique[OF pos(1) d(1) i(1,2)] axis_block_unique[OF pos(1) d(4) i'(1,2)] by simp
  moreover have "b = b'" using axis_block_unique[OF pos(2) d(2) i(3,4)] axis_block_unique[OF pos(2) d(5) i'(3,4)] by simp
  moreover have "c = c'" using axis_block_unique[OF pos(3) d(3) i(5,6)] axis_block_unique[OF pos(3) d(6) i'(5,6)] by simp
  ultimately show ?thesis by (simp add: st st')
qed

lemma in_box_add: "in_box p (box_add b v) = in_box (vsub p v) b"
  by (cases p rule: prod.exhaust; cases b rule: prod.exhaust; cases v rule: prod.exhaust)
     (auto simp: in_box_def box_add_def split: prod.splits)

lemma in_box_sub: "in_box p (box_sub b v) = in_box (vadd p v) b"
  by (cases p rule: prod.exhaust; cases b rule: prod.exhaust; cases v rule: prod.exhaust)
     (auto simp: in_box_def box_sub_def split: prod.splits)

lemma in_box_intersection: "in_box p (box_intersection a b) = (in_box p a \<and> in_box p b)"
  by (cases p rule: prod.exhaust; cases a rule: prod.exhaust; cases b rule: prod.exhaust)
     (auto simp: in_box_def box_intersection_def split: prod.splits)

lemma vadd_zero [simp]: "vadd v (0, 0, 0) = v"
  by (cases v rule: prod.exhaust) (auto split: prod.splits)

lemma vsub_zero [simp]: "vsub v (0, 0, 0) = v"
  by (cases v rule: prod.exhaust) (auto split: prod.splits)

lemma box_add_zero [simp]: "box_add b (0, 0, 0) = b"
  by (simp add: box_add_def)

lemma box_sub_zero [simp]: "box_sub b (0, 0, 0) = b"
  by (simp add: box_sub_def)

lemma box_sub64_fits:
  assumes "no_int64_wrap B G"
  shows "box_sub64 B (offset G) = box_sub B (offset G)"
proof -
  obtain z0 y0 x0 z1 y1 x1 where B: "B = ((z0, y0, x0), (z1, y1, x1))" by (metis prod.exhaust)
  obtain oz oy ox where off: "offset G = (oz, oy, ox)" by (metis prod.exhaust)
  obtain sz sy sx where bs: "block_shape G = (sz, sy, sx)" by (metis prod.exhaust)
  show ?thesis
    using assms by (simp add: no_int64_wrap_def axis_fits_def B off bs box_sub64_def box_sub_def int64_id)
qed

lemma shifted_fits:
  assumes "no_int64_wrap B G"
  shows "no_int64_wrap (box_sub B (offset G)) \<lparr>block_shape = block_shape G, offset = (0, 0, 0)\<rparr>"
proof -
  obtain z0 y0 x0 z1 y1 x1 where B: "B = ((z0, y0, x0), (z1, y1, x1))" by (metis prod.exhaust)
  obtain oz oy ox where off: "offset G = (oz, oy, ox)" by (metis prod.exhaust)
  obtain sz sy sx where bs: "block_shape G = (sz, sy, sx)" by (metis prod.exhaust)
  have zero: "in_int64 0" by (simp add: in_int64_def)
  show ?thesis
    using assms zero by (simp add: no_int64_wrap_def axis_fits_def B off bs box_sub_def)
qed

lemma box_add64_fits:
  assumes "vless (0, 0, 0) (block_shape G)" and "no_int64_wrap B G"
    and "st \<in> set (grid_starts (box_sub B (offset G)) (block_shape G))"
  shows "box_add64 (st, vadd st (block_shape G)) (offset G) = box_add (st, vadd st (block_shape G)) (offset G)"
proof -
  obtain z0 y0 x0 z1 y1 x1 where B: "B = ((z0, y0, x0), (z1, y1, x1))" by (metis prod.exhaust)
  obtain oz oy ox where off: "offset G = (oz, oy, ox)" by (metis prod.exhaust)
  obtain sz sy sx where bs: "block_shape G = (sz, sy, sx)" by (metis prod.exhaust)
  obtain a b c where abc: "st = (a, b, c)" by (metis prod.exhaust)
  have pos: "0 < sz" "0 < sy" "0 < sx" using assms(1) bs by simp_all
  have mem: "a \<in> set (axis_starts (z0 - oz) (z1 - oz) sz)" "b \<in> set (axis_starts (y0 - oy) (y1 - oy) sy)"
    "c \<in> set (axis_starts (x0 - ox) (x1 - ox) sx)"
    using assms(3) by (simp_all add: grid_starts_def B off bs abc box_sub_def)
  have fit: "in_int64 (z0 - sz)" "in_int64 (z1 + sz)" "in_int64 (y0 - sy)" "in_int64 (y1 + sy)"
    "in_int64 (x0 - sx)" "in_int64 (x1 + sx)"
    using assms(2) by (simp_all add: no_int64_wrap_def axis_fits_def B off bs)
  have one: "\<And>t lo hi o' s. 0 < s \<Longrightarrow> t \<in> set (axis_starts (lo - o') (hi - o') s)
      \<Longrightarrow> in_int64 (lo - s) \<Longrightarrow> in_int64 (hi + s) \<Longrightarrow> in_int64 (t + o') \<and> in_int64 (t + s + o')"
  proof -
    fix t lo hi o' s :: int
    assume s: "0 < s" and t: "t \<in> set (axis_starts (lo - o') (hi - o') s)"
      and f: "in_int64 (lo - s)" "in_int64 (hi + s)"
    from axis_starts_range[OF s t] have "lo - s < t + o'" "t + s + o' \<le> hi + s - 1" by simp_all
    then show "in_int64 (t + o') \<and> in_int64 (t + s + o')"
      using f s unfolding in_int64_def by simp
  qed
  show ?thesis
    using one[OF pos(1) mem(1) fit(1,2)] one[OF pos(2) mem(2) fit(3,4)] one[OF pos(3) mem(3) fit(5,6)]
    by (simp add: box_add64_def box_add_def abc off bs int64_id)
qed

lemma boxes_from_grid_pos:
  assumes "vless (0, 0, 0) (block_shape G)" and "no_int64_wrap B G"
  shows "boxes_from_grid B G = Inr (grid_boxes B G)"
proof -
  let ?B' = "box_sub B (offset G)"
  have no: "boxes_from_grid_no_offset ?B' (block_shape G)
      = Inr (map (\<lambda>st. (st, vadd st (block_shape G))) (grid_starts ?B' (block_shape G)))"
    by (rule no_offset_pos[OF assms(1) shifted_fits[OF assms(2)]])
  show ?thesis
  proof (cases "offset G = (0, 0, 0)")
    case True
    then show ?thesis using no by (simp add: boxes_from_grid_def grid_boxes_def comp_def)
  next
    case False
    have "map (\<lambda>box. box_add64 box (offset G)) (map (\<lambda>st. (st, vadd st (block_shape G))) (grid_starts ?B' (block_shape G)))
        = grid_boxes B G"
      unfolding grid_boxes_def map_map comp_def
      by (rule map_cong) (simp_all add: box_add64_fits[OF assms])
    then show ?thesis
      using False no by (simp add: boxes_from_grid_def box_sub64_fits[OF assms(2)])
  qed
qed

lemma vsub_vadd_cancel [simp]: "vsub (vadd p v) v = p" "vadd (vsub p v) v = p"
  by (cases p rule: prod.exhaust; cases v rule: prod.exhaust; auto split: prod.splits)+

lemma grid_boxes_cover:
  assumes "vless (0, 0, 0) (block_shape G)" "in_box p B"
  shows "\<exists>b \<in> set (grid_boxes B G). in_box p b"
proof -
  have "in_box (vsub p (offset G)) (box_sub B (offset G))"
    using assms(2) by (simp add: in_box_sub)
  from grid_starts_cover[OF assms(1) this]
  obtain st where "st \<in> set (grid_starts (box_sub B (offset G)) (block_shape G))"
    "in_box (vsub p (offset G)) (st, vadd st (block_shape G))" by blast
  then show ?thesis by (auto simp: grid_boxes_def in_box_add)
qed

lemma grid_boxes_unique:
  assumes "vless (0, 0, 0) (block_shape G)" "b \<in> set (grid_boxes B G)" "b' \<in> set (grid_boxes B G)"
    and "in_box p b" "in_box p b'"
  shows "b = b'"
proof -
  obtain st where st: "st \<in> set (grid_starts (box_sub B (offset G)) (block_shape G))"
    "b = box_add (st, vadd st (block_shape G)) (offset G)" using assms(2) by (auto simp: grid_boxes_def)
  obtain st' where st': "st' \<in> set (grid_starts (box_sub B (offset G)) (block_shape G))"
    "b' = box_add (st', vadd st' (block_shape G)) (offset G)" using assms(3) by (auto simp: grid_boxes_def)
  have "st = st'"
    using grid_starts_unique[OF assms(1) st(1) st'(1), of "vsub p (offset G)"] assms(4,5)
    by (simp add: st(2) st'(2) in_box_add)
  then show ?thesis by (simp add: st(2) st'(2))
qed

lemma vadd_inj: "vadd a v = vadd b v \<Longrightarrow> a = b"
  by (cases a rule: prod.exhaust; cases b rule: prod.exhaust; cases v rule: prod.exhaust)
     (auto split: prod.splits)

lemma grid_boxes_distinct:
  assumes "vless (0, 0, 0) (block_shape G)"
  shows "distinct (grid_boxes B G)"
  unfolding grid_boxes_def
  by (auto simp: distinct_map grid_starts_distinct[OF assms] inj_on_def box_add_def dest: vadd_inj)

text \<open>
  C2, as stated, fails on the code.  The box \<open>[(2^63 - 4, 0, 0), (2^63 - 1, 1, 1))\<close> has
  start below stop and int64 coordinates, the block shape \<open>(4, 1, 1)\<close> is positive, and the
  box has voxels; but \<^verbatim>\<open>bounding_box[1] + block_shape - 1\<close> wraps around on the first axis,
  \<^verbatim>\<open>aligned_stop\<close> becomes \<open>-2^63\<close>, the range of block starts is empty, and
  \<^verbatim>\<open>clipped_boxes_from_grid\<close> yields no box at all.
\<close>

theorem clipped_boxes_from_grid_wraps_counterexample:
  "vle (fst ((9223372036854775804, 0, 0), (9223372036854775807, 1, 1)))
       (snd ((9223372036854775804, 0, 0), (9223372036854775807, 1, 1)))
   \<and> vless (0, 0, 0) (block_shape \<lparr>block_shape = (4, 1, 1), offset = (0, 0, 0)\<rparr>)
   \<and> in_int64 9223372036854775804 \<and> in_int64 9223372036854775807
   \<and> clipped_boxes_from_grid ((9223372036854775804, 0, 0), (9223372036854775807, 1, 1))
         \<lparr>block_shape = (4, 1, 1), offset = (0, 0, 0)\<rparr> = Inr []
   \<and> (9223372036854775804, 0, 0) \<in> box_voxels ((9223372036854775804, 0, 0), (9223372036854775807, 1, 1))"
  by (simp add: clipped_boxes_from_grid_def boxes_from_grid_def boxes_from_grid_no_offset_def
        ndrange_def py_range_def int64_def in_int64_def box_voxels_def in_box_def)

text \<open>
  C2, amended.  For a box with start below stop and a grid with positive block shape, when no
  operation of the grid walk wraps around in int64 (\<open>no_int64_wrap\<close>: the coordinates of the
  box, the offset and the block shape, the box shifted by the offset, and both widened by one
  block, are all int64), \<^verbatim>\<open>clipped_boxes_from_grid(B, G)\<close> returns (it does not raise), the
  voxels of the returned boxes together are exactly the voxels of \<open>B\<close>, and two boxes at
  different positions of the returned sequence share no voxel.
\<close>

theorem clipped_boxes_from_grid_tiling:
  assumes "vle (fst B) (snd B)" and "vless (0, 0, 0) (block_shape G)" and "no_int64_wrap B G"
  shows "\<exists>boxes. clipped_boxes_from_grid B G = Inr boxes
           \<and> (\<Union>b \<in> set boxes. box_voxels b) = box_voxels B
           \<and> (\<forall>i < length boxes. \<forall>j < length boxes. i \<noteq> j \<longrightarrow>
                 box_voxels (boxes ! i) \<inter> box_voxels (boxes ! j) = {})"
proof -
  let ?gb = "grid_boxes B G"
  let ?boxes = "map (\<lambda>box. box_intersection box B) ?gb"
  have res: "clipped_boxes_from_grid B G = Inr ?boxes"
    by (simp add: clipped_boxes_from_grid_def boxes_from_grid_pos[OF assms(2,3)])
  have union: "(\<Union>b \<in> set ?boxes. box_voxels b) = box_voxels B"
  proof (rule set_eqI, rule iffI)
    fix p assume "p \<in> (\<Union>b \<in> set ?boxes. box_voxels b)"
    then show "p \<in> box_voxels B" by (auto simp: box_voxels_def in_box_intersection)
  next
    fix p assume "p \<in> box_voxels B"
    then have pB: "in_box p B" by (simp add: box_voxels_def)
    from grid_boxes_cover[OF assms(2) pB] obtain b where "b \<in> set ?gb" "in_box p b" by blast
    then show "p \<in> (\<Union>b \<in> set ?boxes. box_voxels b)"
      using pB by (auto simp: box_voxels_def in_box_intersection)
  qed
  have disj: "\<forall>i < length ?boxes. \<forall>j < length ?boxes. i \<noteq> j \<longrightarrow>
                 box_voxels (?boxes ! i) \<inter> box_voxels (?boxes ! j) = {}"
  proof (intro allI impI)
    fix i j assume ij: "i < length ?boxes" "j < length ?boxes" "i \<noteq> j"
    then have ne: "?gb ! i \<noteq> ?gb ! j"
      using grid_boxes_distinct[OF assms(2), of B] by (simp add: nth_eq_iff_index_eq)
    have mem: "?gb ! i \<in> set ?gb" "?gb ! j \<in> set ?gb" using ij by simp_all
    show "box_voxels (?boxes ! i) \<inter> box_voxels (?boxes ! j) = {}"
    proof (rule ccontr)
      assume "box_voxels (?boxes ! i) \<inter> box_voxels (?boxes ! j) \<noteq> {}"
      then obtain p where "in_box p (?boxes ! i)" "in_box p (?boxes ! j)"
        by (auto simp: box_voxels_def)
      then have "in_box p (?gb ! i)" "in_box p (?gb ! j)"
        using ij by (simp_all add: in_box_intersection)
      from grid_boxes_unique[OF assms(2) mem this] ne show False by simp
    qed
  qed
  show ?thesis using res union disj by blast
qed

lemma clipped_boxes_from_grid_example:
  "clipped_boxes_from_grid ((0, 0, 0), (3, 2, 2)) \<lparr>block_shape = (2, 2, 2), offset = (1, 0, 0)\<rparr>
     = Inr [((0, 0, 0), (1, 2, 2)), ((1, 0, 0), (3, 2, 2))]"
  by code_simp

theorem clipped_boxes_from_grid_tiling_witness:
  "vle (fst ((0, 0, 0), (3, 2, 2))) (snd ((0, 0, 0), (3, 2, 2)))
   \<and> vless (0, 0, 0) (block_shape \<lparr>block_shape = (2, 2, 2), offset = (1, 0, 0)\<rparr>)
   \<and> no_int64_wrap ((0, 0, 0), (3, 2, 2)) \<lparr>block_shape = (2, 2, 2), offset = (1, 0, 0)\<rparr>
   \<and> clipped_boxes_from_grid ((0, 0, 0), (3, 2, 2)) \<lparr>block_shape = (2, 2, 2), offset = (1, 0, 0)\<rparr>
       = Inr [((0, 0, 0), (1, 2, 2)), ((1, 0, 0), (3, 2, 2))]
   \<and> box_voxels ((0, 0, 0), (1, 2, 2)) \<union> box_voxels ((1, 0, 0), (3, 2, 2)) = box_voxels ((0, 0, 0), (3, 2, 2))
   \<and> box_voxels ((0, 0, 0), (1, 2, 2)) \<inter> box_voxels ((1, 0, 0), (3, 2, 2)) = {}"
proof -
  let ?B = "((0, 0, 0), (3, 2, 2)) :: box"
  let ?G = "\<lparr>block_shape = (2, 2, 2), offset = (1, 0, 0)\<rparr>"
  have h1: "vle (fst ?B) (snd ?B)" by simp
  have h2: "vless (0, 0, 0) (block_shape ?G)" by simp
  have h3: "no_int64_wrap ?B ?G" by (simp add: no_int64_wrap_def axis_fits_def in_int64_def)
  from clipped_boxes_from_grid_tiling[OF h1 h2 h3]
  obtain boxes where b: "clipped_boxes_from_grid ?B ?G = Inr boxes"
    "(\<Union>b \<in> set boxes. box_voxels b) = box_voxels ?B"
    "\<forall>i < length boxes. \<forall>j < length boxes. i \<noteq> j \<longrightarrow>
        box_voxels (boxes ! i) \<inter> box_voxels (boxes ! j) = {}" by blast
  have e: "boxes = [((0, 0, 0), (1, 2, 2)), ((1, 0, 0), (3, 2, 2))]"
    using b(1) clipped_boxes_from_grid_example by simp
  have "box_voxels (boxes ! 0) \<inter> box_voxels (boxes ! 1) = {}"
    using b(3) e by (metis One_nat_def length_Cons lessI less_Suc_eq zero_neq_one list.size(3))
  then show ?thesis using h1 h2 h3 b(1,2) e by simp
qed

section \<open>Assembling brick fragments\<close>

lemma vint_vnat: "vle (0, 0, 0) v \<Longrightarrow> vint (vnat v) = v"
  by (cases v rule: prod.exhaust) (auto split: prod.splits)

lemma vnat_vint [simp]: "vnat (vint s) = s"
  by (cases s rule: prod.exhaust) (auto split: prod.splits)

lemma vint_nonneg [simp]: "vle (0, 0, 0) (vint s)"
  by (cases s rule: prod.exhaust) (auto split: prod.splits)

lemma vle_refl [simp]: "vle v v"
  by (cases v rule: prod.exhaust) (auto split: prod.splits)

lemma vle_trans: "vle a b \<Longrightarrow> vle b c \<Longrightarrow> vle a c"
  by (cases a rule: prod.exhaust; cases b rule: prod.exhaust; cases c rule: prod.exhaust)
     (auto split: prod.splits)

lemma vle_vsub_mono: "vle a b \<Longrightarrow> vle (vsub a c) (vsub b c)"
  by (cases a rule: prod.exhaust; cases b rule: prod.exhaust; cases c rule: prod.exhaust)
     (auto split: prod.splits)

lemma vle_zero_vsub: "vle (0, 0, 0) (vsub b a) = vle a b"
  by (cases a rule: prod.exhaust; cases b rule: prod.exhaust) (auto split: prod.splits)

lemma vsub_vsub_cancel [simp]: "vsub (vsub p c) (vsub a c) = vsub p a"
  by (cases a rule: prod.exhaust; cases p rule: prod.exhaust; cases c rule: prod.exhaust)
     (auto split: prod.splits)

lemma vmin_le: "vle (vmin a b) a" "vle (vmin a b) b"
  by (cases a rule: prod.exhaust; cases b rule: prod.exhaust; auto split: prod.splits)+

lemma vmax_ge: "vle a (vmax a b)" "vle b (vmax a b)"
  by (cases a rule: prod.exhaust; cases b rule: prod.exhaust; auto split: prod.splits)+

lemma vmin_greatest: "vle c a \<Longrightarrow> vle c b \<Longrightarrow> vle c (vmin a b)"
  by (cases a rule: prod.exhaust; cases b rule: prod.exhaust; cases c rule: prod.exhaust)
     (auto split: prod.splits)

lemma vmax_least: "vle a c \<Longrightarrow> vle b c \<Longrightarrow> vle (vmax a b) c"
  by (cases a rule: prod.exhaust; cases b rule: prod.exhaust; cases c rule: prod.exhaust)
     (auto split: prod.splits)

lemma fold_vmin_le: "vle (fold vmin xs x0) x0 \<and> (\<forall>x \<in> set xs. vle (fold vmin xs x0) x)"
proof (induction xs arbitrary: x0)
  case Nil then show ?case by simp
next
  case (Cons a xs)
  have "vle (fold vmin xs (vmin a x0)) (vmin a x0)" using Cons.IH by blast
  then show ?case using Cons.IH[of "vmin a x0"] by (auto intro: vle_trans vmin_le)
qed

lemma fold_vmax_ge: "vle x0 (fold vmax xs x0) \<and> (\<forall>x \<in> set xs. vle x (fold vmax xs x0))"
proof (induction xs arbitrary: x0)
  case Nil then show ?case by simp
next
  case (Cons a xs)
  have "vle (vmax a x0) (fold vmax xs (vmax a x0))" using Cons.IH by blast
  then show ?case using Cons.IH[of "vmax a x0"] by (auto intro: vle_trans vmax_ge)
qed

lemma fold_vmin_greatest: "vle c x0 \<Longrightarrow> \<forall>x \<in> set xs. vle c x \<Longrightarrow> vle c (fold vmin xs x0)"
  by (induction xs arbitrary: x0) (simp_all add: vmin_greatest)

lemma fold_vmax_least: "vle x0 c \<Longrightarrow> \<forall>x \<in> set xs. vle x c \<Longrightarrow> vle (fold vmax xs x0) c"
  by (induction xs arbitrary: x0) (simp_all add: vmax_least)

lemma brick_ok_ordered: "brick_ok b \<Longrightarrow> vle (fst (physical_box b)) (snd (physical_box b))"
  unfolding brick_ok_def by (metis vint_nonneg vle_zero_vsub)

lemma brick_ok_shape: "brick_ok b \<Longrightarrow> shape (volume b) = vnat (vsub (snd (physical_box b)) (fst (physical_box b)))"
  unfolding brick_ok_def by (metis vnat_vint)

lemma Brick_init_ok: "Brick_init l p v = Inr b \<Longrightarrow> brick_ok b \<and> logical_box b = l \<and> physical_box b = p \<and> volume b = v"
  by (auto simp: Brick_init_def brick_ok_def split: if_splits)

lemma Brick_init_Inr:
  "vsub (snd p) (fst p) = vint (shape v) \<Longrightarrow> vle (fst l) (fst p) \<Longrightarrow> vle (snd p) (snd l)
   \<Longrightarrow> Brick_init l p v = Inr \<lparr>logical_box = l, physical_box = p, volume = v\<rparr>"
  by (simp add: Brick_init_def)

lemma in_box_empty_intersection:
  "box_empty (box_intersection a b) \<Longrightarrow> in_box p a \<Longrightarrow> in_box p b \<Longrightarrow> False"
  by (cases p rule: prod.exhaust; cases a rule: prod.exhaust; cases b rule: prod.exhaust)
     (auto simp: in_box_def box_intersection_def box_empty_def split: prod.splits)

lemma disjoint_boxes_head:
  "disjoint_boxes (b # bs) \<Longrightarrow> in_box p b \<Longrightarrow> c \<in> set bs \<Longrightarrow> \<not> in_box p c"
  by (auto simp: list_all_iff dest: in_box_empty_intersection)

lemma in_box_sub_sub: "in_box (vsub p lo) (box_sub b lo) = in_box p b"
  by (simp add: in_box_sub)

lemma fst_box_sub [simp]: "fst (box_sub b v) = vsub (fst b) v"
  and snd_box_sub [simp]: "snd (box_sub b v) = vsub (snd b) v"
  by (simp_all add: box_sub_def)

lemma overwrite_fragments_spec:
  assumes "\<forall>f \<in> set frs. brick_ok f \<and> vle lo (fst (physical_box f)) \<and> vle (snd (physical_box f)) hi"
    and "vint (shape v0) = vsub hi lo"
    and "disjoint_boxes (map physical_box frs)"
  shows "\<exists>v. overwrite_fragments v0 lo frs = Inr v \<and> shape v = shape v0
           \<and> (\<forall>p. (\<forall>f \<in> set frs. \<not> in_box p (physical_box f)) \<longrightarrow> item v (vsub p lo) = item v0 (vsub p lo))
           \<and> (\<forall>p. \<forall>f \<in> set frs. in_box p (physical_box f) \<longrightarrow> item v (vsub p lo) = brick_voxel f p)"
  using assms
proof (induction frs arbitrary: v0)
  case Nil
  then show ?case by simp
next
  case (Cons f frs)
  let ?box = "box_sub (physical_box f) lo"
  have f: "brick_ok f" "vle lo (fst (physical_box f))" "vle (snd (physical_box f)) hi"
    using Cons.prems(1) by simp_all
  have g1: "vle (0, 0, 0) (fst ?box)" using f(2) by (simp add: vle_zero_vsub)
  have g2: "vle (snd ?box) (vint (shape v0))"
    using f(3) Cons.prems(2) by (simp add: vle_vsub_mono)
  have g3: "shape (volume f) = vnat (vsub (snd ?box) (fst ?box))"
    using brick_ok_shape[OF f(1)] by simp
  define v1 where "v1 = v0\<lparr>item := (\<lambda>p. if in_box p ?box then item (volume f) (vsub p (fst ?box))
                                      else item v0 p)\<rparr>"
  have ow: "overwrite_subvol v0 ?box (volume f) = Inr v1"
    using g1 g2 g3 by (simp add: overwrite_subvol_def v1_def)
  have sh1: "shape v1 = shape v0" by (simp add: v1_def)
  have it1: "\<And>p. item v1 (vsub p lo) = (if in_box p (physical_box f) then brick_voxel f p else item v0 (vsub p lo))"
    by (simp add: v1_def in_box_sub_sub brick_voxel_def)
  have dj: "disjoint_boxes (map physical_box frs)" using Cons.prems(3) by simp
  from Cons.IH[of v1] Cons.prems(1) Cons.prems(2) sh1 dj
  obtain v where v: "overwrite_fragments v1 lo frs = Inr v" "shape v = shape v1"
    "\<forall>p. (\<forall>g \<in> set frs. \<not> in_box p (physical_box g)) \<longrightarrow> item v (vsub p lo) = item v1 (vsub p lo)"
    "\<forall>p. \<forall>g \<in> set frs. in_box p (physical_box g) \<longrightarrow> item v (vsub p lo) = brick_voxel g p"
    by auto
  have res: "overwrite_fragments v0 lo (f # frs) = Inr v" using ow v(1) by simp
  have a: "\<forall>p. (\<forall>g \<in> set (f # frs). \<not> in_box p (physical_box g)) \<longrightarrow> item v (vsub p lo) = item v0 (vsub p lo)"
    using v(3) it1 by simp
  have b: "\<forall>p. \<forall>g \<in> set (f # frs). in_box p (physical_box g) \<longrightarrow> item v (vsub p lo) = brick_voxel g p"
  proof (intro allI ballI impI)
    fix p g assume g: "g \<in> set (f # frs)" "in_box p (physical_box g)"
    show "item v (vsub p lo) = brick_voxel g p"
    proof (cases "g \<in> set frs")
      case True then show ?thesis using v(4) g(2) by blast
    next
      case False
      then have gf: "g = f" using g(1) by simp
      have "\<forall>h \<in> set frs. \<not> in_box p (physical_box h)"
        using disjoint_boxes_head[of "physical_box f" "map physical_box frs" p] Cons.prems(3) g(2) gf
        by auto
      then have "item v (vsub p lo) = item v1 (vsub p lo)" using v(3) by blast
      then show ?thesis using it1 g(2) gf by simp
    qed
  qed
  have sh: "shape v = shape v0" using v(2) sh1 by simp
  show ?case using res sh a b by - (rule exI[of _ v], simp)
qed

lemma in_box_mono: "in_box p a \<Longrightarrow> vle (fst b) (fst a) \<Longrightarrow> vle (snd a) (snd b) \<Longrightarrow> in_box p b"
  by (cases p rule: prod.exhaust; cases a rule: prod.exhaust; cases b rule: prod.exhaust)
     (auto simp: in_box_def split: prod.splits)

lemma bounding_box_of_bounds:
  assumes "fragments \<noteq> []" "f \<in> set fragments"
  shows "vle (fst (bounding_box_of fragments)) (fst (physical_box f))"
    and "vle (snd (physical_box f)) (snd (bounding_box_of fragments))"
proof -
  obtain f0 rest where fr: "fragments = f0 # rest" using assms(1) by (cases fragments) auto
  show "vle (fst (bounding_box_of fragments)) (fst (physical_box f))"
    using assms(2) fold_vmin_le[of "map (\<lambda>frag. fst (physical_box frag)) rest" "fst (physical_box f0)"]
    by (auto simp: bounding_box_of_def fr)
  show "vle (snd (physical_box f)) (snd (bounding_box_of fragments))"
    using assms(2) fold_vmax_ge[of "snd (physical_box f0)" "map (\<lambda>frag. snd (physical_box frag)) rest"]
    by (auto simp: bounding_box_of_def fr)
qed

lemma bounding_box_of_within:
  assumes "fragments \<noteq> []" "\<forall>f \<in> set fragments. vle lo (fst (physical_box f)) \<and> vle (snd (physical_box f)) hi"
  shows "vle lo (fst (bounding_box_of fragments))" "vle (snd (bounding_box_of fragments)) hi"
proof -
  obtain f0 rest where fr: "fragments = f0 # rest" using assms(1) by (cases fragments) auto
  show "vle lo (fst (bounding_box_of fragments))"
    using assms(2) by (auto simp: bounding_box_of_def fr intro!: fold_vmin_greatest)
  show "vle (snd (bounding_box_of fragments)) hi"
    using assms(2) by (auto simp: bounding_box_of_def fr intro!: fold_vmax_least)
qed

lemma assemble_spec:
  assumes ne: "fragments \<noteq> []"
    and ok: "\<forall>f \<in> set fragments. brick_ok f"
    and lb: "\<forall>f \<in> set fragments. logical_box f = L"
    and dj: "disjoint_boxes (map physical_box fragments)"
  shows "\<exists>b. assemble_brick_fragments fragments = Inr b \<and> brick_ok b \<and> logical_box b = L
           \<and> physical_box b = bounding_box_of fragments
           \<and> (\<forall>p. (\<forall>f \<in> set fragments. \<not> in_box p (physical_box f)) \<longrightarrow> brick_voxel b p = 0)
           \<and> (\<forall>p. \<forall>f \<in> set fragments. in_box p (physical_box f) \<longrightarrow> brick_voxel b p = brick_voxel f p)"
proof -
  obtain f0 rest where fr: "fragments = f0 # rest" using ne by (cases fragments) auto
  let ?fpb = "bounding_box_of fragments"
  let ?lo = "fst ?fpb" and ?hi = "snd ?fpb"
  have f0: "f0 \<in> set fragments" by (simp add: fr)
  have L: "logical_box f0 = L" using lb f0 by blast
  have all_lb: "list_all (\<lambda>frag. logical_box frag = logical_box f0) fragments"
    using lb L by (simp add: list_all_iff)
  have within: "\<forall>f \<in> set fragments. vle (fst L) (fst (physical_box f)) \<and> vle (snd (physical_box f)) (snd L)"
    using ok lb by (auto simp: brick_ok_def)
  have c1: "vle (fst L) ?lo" and c2: "vle ?hi (snd L)"
    using bounding_box_of_within[OF ne within] by simp_all
  have ord: "vle ?lo ?hi"
    using bounding_box_of_bounds[OF ne f0] brick_ok_ordered[of f0] ok f0 by (blast intro: vle_trans)
  then have nn: "vle (0, 0, 0) (vsub ?hi ?lo)" by (simp add: vle_zero_vsub)
  define zeros :: "'a ndarray" where "zeros = \<lparr>shape = vnat (vsub ?hi ?lo), item = (\<lambda>_. 0)\<rparr>"
  have z: "np_zeros (vsub ?hi ?lo) = Inr zeros" using nn by (simp add: np_zeros_def zeros_def)
  have zs: "vint (shape zeros) = vsub ?hi ?lo" using nn by (simp add: zeros_def vint_vnat)
  have pre: "\<forall>f \<in> set fragments. brick_ok f \<and> vle ?lo (fst (physical_box f)) \<and> vle (snd (physical_box f)) ?hi"
    using ok bounding_box_of_bounds[OF ne] by blast
  from overwrite_fragments_spec[OF pre zs dj]
  obtain v where v: "overwrite_fragments zeros ?lo fragments = Inr v" "shape v = shape zeros"
    "\<forall>p. (\<forall>f \<in> set fragments. \<not> in_box p (physical_box f)) \<longrightarrow> item v (vsub p ?lo) = item zeros (vsub p ?lo)"
    "\<forall>p. \<forall>f \<in> set fragments. in_box p (physical_box f) \<longrightarrow> item v (vsub p ?lo) = brick_voxel f p"
    by blast
  define b where "b = \<lparr>logical_box = L, physical_box = ?fpb, volume = v\<rparr>"
  have bi: "Brick_init L ?fpb v = Inr b"
    unfolding b_def using zs v(2) c1 c2 by (intro Brick_init_Inr) simp_all
  have fpb_eq: "?fpb = (fold vmin (map (\<lambda>frag. fst (physical_box frag)) rest) (fst (physical_box f0)),
                       fold vmax (map (\<lambda>frag. snd (physical_box frag)) rest) (snd (physical_box f0)))"
    by (simp add: bounding_box_of_def fr)
  have res: "assemble_brick_fragments fragments = Inr b"
    unfolding assemble_brick_fragments_def fr list.case
    using all_lb c1 c2 z v(1) bi unfolding fpb_eq[symmetric] fr L
    by (simp add: Let_def fpb_eq[symmetric, unfolded fr])
  have bok: "brick_ok b" using Brick_init_ok[OF bi] by simp
  have p1: "\<forall>p. (\<forall>f \<in> set fragments. \<not> in_box p (physical_box f)) \<longrightarrow> brick_voxel b p = 0"
    using v(3) by (simp add: brick_voxel_def b_def zeros_def)
  have p2: "\<forall>p. \<forall>f \<in> set fragments. in_box p (physical_box f) \<longrightarrow> brick_voxel b p = brick_voxel f p"
  proof -
    have bv: "\<And>p. brick_voxel b p = item v (vsub p ?lo)" by (simp add: brick_voxel_def b_def)
    show ?thesis using v(4) by (simp only: bv) 
  qed
  have lbb: "logical_box b = L" "physical_box b = ?fpb" by (simp_all add: b_def)
  show ?thesis using res bok lbb p1 p2 by - (rule exI[of _ b], simp)
qed

text \<open>
  C9. For a non-empty list of fragments (bricks that satisfy the integrity invariant) with one
  logical box and pairwise disjoint physical boxes, \<^verbatim>\<open>assemble_brick_fragments\<close> returns a
  brick; at every voxel of its physical box that no fragment covers its value is 0, and at a
  voxel that a fragment covers its value is that fragment's.
\<close>

theorem assemble_brick_fragments_zero_fills:
  assumes "fragments \<noteq> []"
    and "\<forall>f \<in> set fragments. brick_ok f"
    and "\<forall>f \<in> set fragments. logical_box f = logical_box (hd fragments)"
    and "disjoint_boxes (map physical_box fragments)"
  shows "\<exists>b. assemble_brick_fragments fragments = Inr b
           \<and> (\<forall>p. in_box p (physical_box b) \<longrightarrow>
                 (if \<exists>f \<in> set fragments. in_box p (physical_box f)
                  then \<forall>f \<in> set fragments. in_box p (physical_box f) \<longrightarrow> brick_voxel b p = brick_voxel f p
                  else brick_voxel b p = 0))"
proof -
  from assemble_spec[OF assms]
  obtain b where b: "assemble_brick_fragments fragments = Inr b"
    "\<forall>p. (\<forall>f \<in> set fragments. \<not> in_box p (physical_box f)) \<longrightarrow> brick_voxel b p = 0"
    "\<forall>p. \<forall>f \<in> set fragments. in_box p (physical_box f) \<longrightarrow> brick_voxel b p = brick_voxel f p"
    by blast
  show ?thesis using b by - (rule exI[of _ b], simp)
qed

lemma assemble_example_box:
  "(case assemble_brick_fragments [frag_a, frag_b] of Inl e \<Rightarrow> None | Inr b \<Rightarrow> Some (physical_box b))
     = Some ((0, 0, 0), (3, 1, 1))"
  by (simp add: assemble_brick_fragments_def frag_a_def frag_b_def np_zeros_def overwrite_subvol_def
      Brick_init_def box_sub_def Let_def)

theorem assemble_brick_fragments_zero_fills_witness:
  "[frag_a, frag_b] \<noteq> [] \<and> brick_ok frag_a \<and> brick_ok frag_b
   \<and> logical_box frag_a = logical_box (hd [frag_a, frag_b])
   \<and> logical_box frag_b = logical_box (hd [frag_a, frag_b])
   \<and> disjoint_boxes (map physical_box [frag_a, frag_b])
   \<and> (\<exists>b. assemble_brick_fragments [frag_a, frag_b] = Inr b
          \<and> physical_box b = ((0, 0, 0), (3, 1, 1))
          \<and> brick_voxel b (0, 0, 0) = 5 \<and> brick_voxel b (1, 0, 0) = 0 \<and> brick_voxel b (2, 0, 0) = 7)"
proof -
  have h1: "[frag_a, frag_b] \<noteq> []" by simp
  have ok: "brick_ok frag_a" "brick_ok frag_b" by (simp_all add: brick_ok_def frag_a_def frag_b_def)
  have h2: "\<forall>f \<in> set [frag_a, frag_b]. brick_ok f" using ok by simp
  have lb: "logical_box frag_a = logical_box (hd [frag_a, frag_b])"
    "logical_box frag_b = logical_box (hd [frag_a, frag_b])" by (simp_all add: frag_a_def frag_b_def)
  have h3: "\<forall>f \<in> set [frag_a, frag_b]. logical_box f = logical_box (hd [frag_a, frag_b])"
    using lb by simp
  have h4: "disjoint_boxes (map physical_box [frag_a, frag_b])"
    by (simp add: frag_a_def frag_b_def box_empty_def box_intersection_def)
  from assemble_brick_fragments_zero_fills[OF h1 h2 h3 h4]
  obtain b where b: "assemble_brick_fragments [frag_a, frag_b] = Inr b"
    "\<forall>p. in_box p (physical_box b) \<longrightarrow>
        (if \<exists>f \<in> set [frag_a, frag_b]. in_box p (physical_box f)
         then \<forall>f \<in> set [frag_a, frag_b]. in_box p (physical_box f) \<longrightarrow> brick_voxel b p = brick_voxel f p
         else brick_voxel b p = 0)" by blast
  have pb: "physical_box b = ((0, 0, 0), (3, 1, 1))" using assemble_example_box b(1) by simp
  have v0: "brick_voxel b (0, 0, 0) = 5"
    using b(2)[rule_format, of "(0, 0, 0)"] by (simp add: pb in_box_def frag_a_def frag_b_def brick_voxel_def)
  have v1: "brick_voxel b (1, 0, 0) = 0"
    using b(2)[rule_format, of "(1, 0, 0)"] by (simp add: pb in_box_def frag_a_def frag_b_def)
  have v2: "brick_voxel b (2, 0, 0) = 7"
    using b(2)[rule_format, of "(2, 0, 0)"] by (simp add: pb in_box_def frag_a_def frag_b_def brick_voxel_def)
  show ?thesis using h1 ok lb h4 b(1) pb v0 v1 v2 by blast
qed

section \<open>Brick integrity\<close>


lemma map_result_elem:
  "map_result f xs = Inr ys \<Longrightarrow> y \<in> set ys \<Longrightarrow> \<exists>x \<in> set xs. f x = Inr y"
proof (induction xs arbitrary: ys)
  case Nil then show ?case by simp
next
  case (Cons x xs)
  from Cons.prems(1) obtain y0 where y0: "f x = Inr y0"
    and r: "(case map_result f xs of Inl e \<Rightarrow> Inl e | Inr ys' \<Rightarrow> Inr (y0 # ys')) = Inr ys"
    by (cases "f x") simp_all
  from r obtain ys' where ys': "map_result f xs = Inr ys'" "ys = y0 # ys'"
    by (cases "map_result f xs") auto
  show ?case
  proof (cases "y = y0")
    case True then show ?thesis using y0 by simp
  next
    case False
    then have "y \<in> set ys'" using Cons.prems(2) ys'(2) by simp
    from Cons.IH[OF ys'(1) this] show ?thesis by auto
  qed
qed

lemma map_result_total:
  "\<forall>x \<in> set xs. \<exists>y. f x = Inr y \<Longrightarrow> \<exists>ys. map_result f xs = Inr ys"
proof (induction xs)
  case Nil then show ?case by simp
next
  case (Cons x xs)
  then obtain y ys where "f x = Inr y" "map_result f xs = Inr ys" by auto
  then show ?case by simp
qed












lemma vmod_vmul [simp]: "vmod (vmul k s) s = (0, 0, 0)"
  by (cases k rule: prod.exhaust; cases s rule: prod.exhaust) (auto split: prod.splits)

lemma box_sub_box_add [simp]: "box_sub (box_add b v) v = b"
  by (simp add: box_sub_def box_add_def)






section \<open>Downsample precondition\<close>

lemma vmod_shape_multiple:
  "factor \<noteq> 0 \<Longrightarrow> (vmod (vint s) (factor, factor, factor) = (0, 0, 0)) = shape_multiple_of s factor"
  by (cases s rule: prod.exhaust) (auto simp: shape_multiple_of_def mod_eq_0_iff_dvd split: prod.splits)

lemma strided_length_multiple:
  assumes "factor \<noteq> 0" "factor dvd int n"
  shows "int (strided_length n factor) = int n div \<bar>factor\<bar>"
proof -
  let ?a = "\<bar>factor\<bar>"
  have pos: "0 < ?a" using assms(1) by simp
  have "?a dvd int n" using assms(2) by simp
  then obtain k where k: "int n = ?a * k" unfolding dvd_def by blast
  have k0: "0 \<le> k"
  proof (rule ccontr)
    assume "\<not> 0 \<le> k"
    then have "?a * k < 0" using pos by (simp add: mult_less_0_iff)
    then show False using k by simp
  qed
  have "(int n + ?a - 1) div ?a = ((?a - 1) + k * ?a) div ?a" using k by (simp add: algebra_simps)
  also have "\<dots> = k" using pos by (simp add: div_pos_pos_trivial)
  finally have "(int n + ?a - 1) div ?a = k" .
  moreover have "int n div ?a = k" using k pos by simp
  ultimately show ?thesis using k0 by (simp add: strided_length_def)
qed

lemma subsample_multiple:
  assumes "factor \<noteq> 0" "shape_multiple_of (shape vol) factor" "shape vol = (nz, ny, nx)"
  shows "\<exists>v. subsample vol factor = Inr v
           \<and> vint (shape v) = vdiv (vint (shape vol)) (\<bar>factor\<bar>, \<bar>factor\<bar>, \<bar>factor\<bar>)
           \<and> (\<forall>z y x. item v (z, y, x) =
                 (if 0 < factor then item vol (z * factor, y * factor, x * factor)
                  else item vol (int nz - 1 + z * factor, int ny - 1 + y * factor, int nx - 1 + x * factor)))"
proof -
  have d: "factor dvd int nz" "factor dvd int ny" "factor dvd int nx"
    using assms(2,3) by (simp_all add: shape_multiple_of_def)
  show ?thesis
    using assms(1)
    by (simp add: subsample_def assms(3) strided_index_def
          strided_length_multiple[OF assms(1) d(1)] strided_length_multiple[OF assms(1) d(2)]
          strided_length_multiple[OF assms(1) d(3)])
qed

text \<open>
  C7, as stated, fails on the code for the factor 0.  No component of the shape \<open>(4, 4, 4)\<close> is
  a multiple of 0, yet numpy's \<^verbatim>\<open>shape % 0\<close> is 0 in every component, the assertion on the
  volume dimensions passes, and \<^verbatim>\<open>downsample\<close> fails with another error: the \<^verbatim>\<open>ValueError\<close> of a
  slice of step zero for \<^verbatim>\<open>subsample\<close>, the \<^verbatim>\<open>ZeroDivisionError\<close> of \<^verbatim>\<open>1/factor\<close> for \<^verbatim>\<open>zoom\<close>.
\<close>

theorem downsample_zero_factor_counterexample:
  "\<not> shape_multiple_of (shape cube4) 0
   \<and> ''subsample'' \<in> set DOWNSAMPLE_METHODS \<and> ''zoom'' \<in> set DOWNSAMPLE_METHODS
   \<and> downsample subsample (\<lambda>v f b. subsample v f) cube4 0 ''subsample'' = Inl ValueError
   \<and> downsample subsample (\<lambda>v f b. subsample v f) cube4 0 ''zoom'' = Inl ZeroDivisionError"
  by (simp add: shape_multiple_of_def cube4_def DOWNSAMPLE_METHODS_def downsample_def subsample_def)

text \<open>
  C7, amended.  A method outside \<^verbatim>\<open>DOWNSAMPLE_METHODS\<close> fails the assertion on the method,
  whatever the shape and the factor.  For a method of \<^verbatim>\<open>DOWNSAMPLE_METHODS\<close> and a factor other
  than 0: when some component of the shape is not a multiple of the factor, \<^verbatim>\<open>downsample\<close>
  fails with the assertion on the volume dimensions; when every component is a multiple of
  the factor, it returns what the routine of the method returns.  For \<^verbatim>\<open>subsample\<close> that is a
  volume, whose shape is the shape divided by the absolute value of the factor and whose item
  at \<open>(z, y, x)\<close> is the item of the input at \<open>(z, y, x)\<close> times the factor (counted back from
  the last item when the factor is negative); for \<^verbatim>\<open>zoom\<close> and \<^verbatim>\<open>grayscale\<close> it is the result of
  \<^verbatim>\<open>scipy.ndimage.zoom\<close>, for \<^verbatim>\<open>mode\<close> the result of \<^verbatim>\<open>downsample_labels(volume, factor, False)\<close>, for
  \<^verbatim>\<open>labels\<close> and \<^verbatim>\<open>label\<close> the result of \<^verbatim>\<open>downsample_labels(volume, factor, True)\<close>, a volume
  when the library returns one.
\<close>

theorem downsample_precondition:
  assumes "shape vol = (nz, ny, nx)"
  shows "(method \<notin> set DOWNSAMPLE_METHODS \<longrightarrow>
            downsample zoom downsample_labels vol factor method = Inl (AssertionError []))
         \<and> (method \<in> set DOWNSAMPLE_METHODS \<and> factor \<noteq> 0 \<longrightarrow>
              (\<not> shape_multiple_of (shape vol) factor \<longrightarrow>
                 downsample zoom downsample_labels vol factor method
                   = Inl (AssertionError ''Volume dimensions must be a multiple of the downsample factor.''))
              \<and> (shape_multiple_of (shape vol) factor \<longrightarrow>
                   (method = ''subsample'' \<longrightarrow>
                      (\<exists>v. downsample zoom downsample_labels vol factor method = Inr v
                         \<and> vint (shape v) = vdiv (vint (shape vol)) (\<bar>factor\<bar>, \<bar>factor\<bar>, \<bar>factor\<bar>)
                         \<and> (\<forall>z y x. item v (z, y, x) =
                               (if 0 < factor then item vol (z * factor, y * factor, x * factor)
                                else item vol (int nz - 1 + z * factor, int ny - 1 + y * factor,
                                               int nx - 1 + x * factor)))))
                   \<and> (method \<in> {''zoom'', ''grayscale''} \<longrightarrow>
                        downsample zoom downsample_labels vol factor method = zoom vol factor)
                   \<and> (method = ''mode'' \<longrightarrow>
                        downsample zoom downsample_labels vol factor method
                          = downsample_labels vol factor False)
                   \<and> (method \<in> {''labels'', ''label''} \<longrightarrow>
                        downsample zoom downsample_labels vol factor method
                          = downsample_labels vol factor True)))"
proof (intro conjI impI)
  assume "method \<notin> set DOWNSAMPLE_METHODS"
  then show "downsample zoom downsample_labels vol factor method = Inl (AssertionError [])"
    by (simp add: downsample_def)
next
  assume a: "method \<in> set DOWNSAMPLE_METHODS \<and> factor \<noteq> 0"
    and n: "\<not> shape_multiple_of (shape vol) factor"
  show "downsample zoom downsample_labels vol factor method
          = Inl (AssertionError ''Volume dimensions must be a multiple of the downsample factor.'')"
    using a n vmod_shape_multiple[of factor "shape vol"] by (simp add: downsample_def)
next
  assume a: "method \<in> set DOWNSAMPLE_METHODS \<and> factor \<noteq> 0"
    and m: "shape_multiple_of (shape vol) factor" and s: "method = ''subsample''"
  have "downsample zoom downsample_labels vol factor method = subsample vol factor"
    using a m s vmod_shape_multiple[of factor "shape vol"] by (simp add: downsample_def)
  then show "\<exists>v. downsample zoom downsample_labels vol factor method = Inr v
                \<and> vint (shape v) = vdiv (vint (shape vol)) (\<bar>factor\<bar>, \<bar>factor\<bar>, \<bar>factor\<bar>)
                \<and> (\<forall>z y x. item v (z, y, x) =
                      (if 0 < factor then item vol (z * factor, y * factor, x * factor)
                       else item vol (int nz - 1 + z * factor, int ny - 1 + y * factor,
                                      int nx - 1 + x * factor)))"
    using subsample_multiple[OF _ m assms, of] a by simp
next
  assume a: "method \<in> set DOWNSAMPLE_METHODS \<and> factor \<noteq> 0"
    and m: "shape_multiple_of (shape vol) factor" and s: "method \<in> {''zoom'', ''grayscale''}"
  show "downsample zoom downsample_labels vol factor method = zoom vol factor"
    using a m s vmod_shape_multiple[of factor "shape vol"] by (auto simp: downsample_def)
next
  assume a: "method \<in> set DOWNSAMPLE_METHODS \<and> factor \<noteq> 0"
    and m: "shape_multiple_of (shape vol) factor" and s: "method = ''mode''"
  show "downsample zoom downsample_labels vol factor method = downsample_labels vol factor False"
    using a m s vmod_shape_multiple[of factor "shape vol"] by (simp add: downsample_def)
next
  assume a: "method \<in> set DOWNSAMPLE_METHODS \<and> factor \<noteq> 0"
    and m: "shape_multiple_of (shape vol) factor" and s: "method \<in> {''labels'', ''label''}"
  show "downsample zoom downsample_labels vol factor method = downsample_labels vol factor True"
    using a m s vmod_shape_multiple[of factor "shape vol"] by (auto simp: downsample_def)
qed

theorem downsample_precondition_witness:
  "shape cube4 = (4, 4, 4) \<and> shape slab3 = (3, 4, 4) \<and> (2::int) \<noteq> 0
   \<and> ''median'' \<notin> set DOWNSAMPLE_METHODS
   \<and> downsample subsample (\<lambda>v f b. subsample v f) cube4 2 ''median'' = Inl (AssertionError [])
   \<and> ''mode'' \<in> set DOWNSAMPLE_METHODS \<and> \<not> shape_multiple_of (shape slab3) 2
   \<and> downsample subsample (\<lambda>v f b. subsample v f) slab3 2 ''mode''
       = Inl (AssertionError ''Volume dimensions must be a multiple of the downsample factor.'')
   \<and> ''subsample'' \<in> set DOWNSAMPLE_METHODS \<and> shape_multiple_of (shape cube4) 2
   \<and> (\<exists>v. downsample subsample (\<lambda>v f b. subsample v f) cube4 2 ''subsample'' = Inr v
          \<and> vint (shape v) = (2, 2, 2) \<and> item v (1, 0, 0) = 2)
   \<and> downsample subsample (\<lambda>v f b. subsample v f) cube4 2 ''mode'' = subsample cube4 2"
proof -
  let ?dl = "\<lambda>(v :: int ndarray) (f :: int) (b :: bool). subsample v f"
  have c: "shape cube4 = (4, 4, 4)" by (simp add: cube4_def)
  have sl: "shape slab3 = (3, 4, 4)" by (simp add: slab3_def)
  have f: "(2::int) \<noteq> 0" by simp
  have h0: "''median'' \<notin> set DOWNSAMPLE_METHODS" by (simp add: DOWNSAMPLE_METHODS_def)
  have h1: "\<not> shape_multiple_of (shape slab3) 2" by (simp add: shape_multiple_of_def slab3_def)
  have h2: "''mode'' \<in> set DOWNSAMPLE_METHODS" "''subsample'' \<in> set DOWNSAMPLE_METHODS"
    by (simp_all add: DOWNSAMPLE_METHODS_def)
  have h3: "shape_multiple_of (shape cube4) 2" by (simp add: shape_multiple_of_def cube4_def)
  have a0: "downsample subsample ?dl cube4 2 ''median'' = Inl (AssertionError [])"
    by (rule downsample_precondition[OF c, of "''median''" subsample ?dl 2,
          THEN conjunct1, THEN mp, OF h0])
  have a1: "downsample subsample ?dl slab3 2 ''mode''
       = Inl (AssertionError ''Volume dimensions must be a multiple of the downsample factor.'')"
    by (rule downsample_precondition[OF sl, of "''mode''" subsample ?dl 2,
          THEN conjunct2, THEN mp, OF conjI[OF h2(1) f], THEN conjunct1, THEN mp, OF h1])
  note aligned = downsample_precondition[OF c, of _ subsample ?dl 2,
          THEN conjunct2, THEN mp, OF conjI[OF _ f], THEN conjunct2, THEN mp, OF _ h3]
  have a2: "downsample subsample ?dl cube4 2 ''mode'' = subsample cube4 2"
    by (rule aligned[OF h2(1), THEN conjunct2, THEN conjunct2, THEN conjunct1, THEN mp, OF refl])
  from aligned[OF h2(2), THEN conjunct1, THEN mp, OF refl]
  obtain v where v: "downsample subsample ?dl cube4 2 ''subsample'' = Inr v"
    "vint (shape v) = vdiv (vint (shape cube4)) (\<bar>2\<bar>, \<bar>2\<bar>, \<bar>2\<bar>)"
    "\<forall>z y x. item v (z, y, x) =
        (if (0::int) < 2 then item cube4 (z * 2, y * 2, x * 2)
         else item cube4 (int 4 - 1 + z * 2, int 4 - 1 + y * 2, int 4 - 1 + x * 2))"
    by (elim exE conjE)
  have sv: "vint (shape v) = (2, 2, 2)" using v(2) by (simp add: cube4_def)
  have iv: "item v (1, 0, 0) = 2" using v(3) by (simp add: cube4_def)
  have ex: "\<exists>v. downsample subsample ?dl cube4 2 ''subsample'' = Inr v
          \<and> vint (shape v) = (2, 2, 2) \<and> item v (1, 0, 0) = 2"
    by (intro exI[of _ v] conjI; fact v(1) sv iv)
  show ?thesis
    by (intro conjI; fact c sl f h0 h1 h2 h3 a0 a1 a2 ex)
qed

section \<open>Empty label map\<close>

text \<open>
  C8. With no file in the labelmap config and \<^verbatim>\<open>unpersist_original\<close> false,
  \<^verbatim>\<open>apply_labelmap_to_bricks\<close> returns a collection that is not the input collection, whose
  elements are the very Brick objects of the input, in order; no Brick object and no existing
  collection changes, and unpersisting the returned collection leaves the input collection as
  it was.
\<close>

theorem empty_labelmap_is_nonaliasing_noop:
  assumes "labelmap_file config = []" and "bricks < length (collections st)"
    and "apply_labelmap_to_bricks load_labelmap st bricks config working_dir False = (st', out)"
  shows "out \<noteq> bricks \<and> out < length (collections st')
         \<and> elements (collections st' ! out) = elements (collections st ! bricks)
         \<and> brick_objects st' = brick_objects st
         \<and> collections st' ! bricks = collections st ! bricks
         \<and> collections (unpersist st' out) ! bricks = collections st ! bricks
         \<and> brick_objects (unpersist st' out) = brick_objects st"
proof -
  have r: "st' = st\<lparr>collections := collections st
            @ [\<lparr>elements = map (\<lambda>brick. brick) (elements (collections st ! bricks)), persisted = False\<rparr>]\<rparr>"
    "out = length (collections st)"
    using assms(1,3) by (simp_all add: apply_labelmap_to_bricks_def rt_map_def)
  show ?thesis using assms(2) by (simp add: r unpersist_def nth_append)
qed

theorem empty_labelmap_is_nonaliasing_noop_witness:
  "labelmap_file \<lparr>labelmap_file = [], labelmap_file_type = ''label-to-body''\<rparr> = [] \<and> 0 < length (collections one_brick_store)
   \<and> (\<exists>st'. apply_labelmap_to_bricks (\<lambda>c w. []) one_brick_store 0
               \<lparr>labelmap_file = [], labelmap_file_type = ''label-to-body''\<rparr> ''/tmp'' False = (st', 1)
          \<and> elements (collections st' ! 1) = [0]
          \<and> brick_objects st' = brick_objects one_brick_store
          \<and> persisted (collections st' ! 0)
          \<and> persisted (collections (unpersist st' 1) ! 0))"
proof -
  let ?c = "\<lparr>labelmap_file = [], labelmap_file_type = ''label-to-body''\<rparr>"
  have h1: "labelmap_file ?c = []" by simp
  have h2: "0 < length (collections one_brick_store)" by (simp add: one_brick_store_def)
  obtain st' out where a: "apply_labelmap_to_bricks (\<lambda>c w. []) one_brick_store 0 ?c ''/tmp'' False = (st', out)"
    by (metis surj_pair)
  have o: "out = 1" using a by (simp add: apply_labelmap_to_bricks_def rt_map_def one_brick_store_def)
  from empty_labelmap_is_nonaliasing_noop[OF h1 h2 a]
  have "elements (collections st' ! out) = elements (collections one_brick_store ! 0)"
    "brick_objects st' = brick_objects one_brick_store"
    "collections st' ! 0 = collections one_brick_store ! 0"
    "collections (unpersist st' out) ! 0 = collections one_brick_store ! 0" by simp_all
  then show ?thesis using h1 h2 a o by (auto simp: one_brick_store_def)
qed

lemma final_label_example: "final_label [(1, 2)] 1 = 2" "final_label [(1, 2)] 2 = 2"
  by (simp_all add: final_label_def global_merge_def merge_step_def Let_def)

lemma smallest_example: "smallest_in_component [(1, 2)] 1 = 1"
proof -
  have c: "connected [(1, 2)] 1 1" by (simp add: connected_def)
  have "\<And>m. connected [(1, 2)] 1 m \<Longrightarrow> 1 \<le> m"
  proof -
    fix m assume "connected [(1, 2)] 1 m"
    moreover have "set [(1, 2)] \<union> (set [(1, 2)])\<inverse> = ({(1, 2), (2, 1)} :: (nat \<times> nat) set)"
      by auto
    ultimately have "(1, m) \<in> ({(1, 2), (2, 1)} :: (nat \<times> nat) set)\<^sup>*"
      by (simp add: connected_def)
    then show "1 \<le> m" by (induction rule: rtrancl_induct) auto
  qed
  with c show ?thesis unfolding smallest_in_component_def by (rule Least_equality)
qed

section \<open>Stitching: the global merge computes connected components\<close>

lemma merge_invD1: "merge_inv (m, s) \<Longrightarrow> m k = Some v \<Longrightarrow> is_root m v"
  unfolding merge_inv_def prod.case by blast

lemma find_label_root: "merge_inv (m, s) \<Longrightarrow> is_root m (find_label m x)"
proof (cases "m x")
  case None
  then show ?thesis by (simp add: find_label_def is_root_def)
next
  case (Some v)
  assume "merge_inv (m, s)"
  from merge_invD1[OF this Some] show ?thesis using Some by (simp add: find_label_def)
qed

lemma find_label_eq_iff:
  assumes "is_root m r"
  shows "(find_label m x = r) = (x = r \<or> m x = Some r)"
  using assms by (auto simp: find_label_def is_root_def split: option.splits)

lemma merge_step_closed:
  assumes inv: "merge_inv (m, s)"
    and body1_def: "body1 = find_label m a" and body2_def: "body2 = find_label m b"
  shows "merge_step (a, b) (m, s) =
           ((\<lambda>k. if k = body1 \<or> m k = Some body1 then Some body2 else m k),
            s(body2 \<mapsto> insert body1 ((case s body2 of Some S \<Rightarrow> S | None \<Rightarrow> {}) \<union> {k. m k = Some body1})))"
proof -
  have r1: "is_root m body1" and r2: "is_root m body2"
    unfolding body1_def body2_def using inv by (rule find_label_root)+
  have I2: "\<And>k r. m k = Some r \<Longrightarrow> \<exists>S. s r = Some S \<and> k \<in> S"
    using inv unfolding merge_inv_def prod.case by blast
  have I3: "\<And>r S t. is_root m r \<Longrightarrow> s r = Some S \<Longrightarrow> t \<in> S \<Longrightarrow> m t = Some r"
    using inv unfolding merge_inv_def prod.case by blast
  define S2 where "S2 = (case s body2 of Some S \<Rightarrow> S | None \<Rightarrow> {})"
  define T where "T = {k. m k = Some body1}"
  define sa where "sa = (if body2 \<notin> dom s then s(body2 \<mapsto> {}) else s)"
  define sb where "sb = sa(body2 \<mapsto> insert body1 (the (sa body2)))"
  have sa2: "the (sa body2) = S2" by (auto simp: sa_def S2_def split: option.splits)
  have sb_eq: "sb = s(body2 \<mapsto> insert body1 S2)"
  proof (cases "body2 \<in> dom s")
    case True
    then have "sa = s" by (simp add: sa_def)
    then show ?thesis using sa2 by (simp add: sb_def)
  next
    case False
    then have "sa = s(body2 \<mapsto> {})" by (simp add: sa_def)
    then show ?thesis using sa2 by (simp add: sb_def)
  qed
  have ms: "merge_step (a, b) (m, s) =
      (if body1 \<in> dom sb
       then ((\<lambda>k. if k \<in> the (sb body1) then Some body2 else (m(body1 \<mapsto> body2)) k),
             sb(body2 \<mapsto> the (sb body2) \<union> the (sb body1)))
       else (m(body1 \<mapsto> body2), sb))"
    unfolding merge_step_def Let_def prod.case fst_conv snd_conv sb_def sa_def body1_def body2_def
      find_label_def ..
  have S2T: "body1 = body2 \<Longrightarrow> S2 = T"
  proof -
    assume e: "body1 = body2"
    show "S2 = T"
    proof (cases "s body2")
      case None
      then have "T = {}" using I2 e by (fastforce simp: T_def)
      then show ?thesis using None by (simp add: S2_def)
    next
      case (Some S)
      have "S \<subseteq> T" using I3[OF r2 Some] e by (auto simp: T_def)
      moreover have "T \<subseteq> S" using I2 Some e by (fastforce simp: T_def)
      ultimately show ?thesis using Some by (simp add: S2_def)
    qed
  qed
  show ?thesis
  proof (cases "body1 = body2")
    case True
    have d: "body1 \<in> dom sb" using True by (simp add: sb_eq)
    have ts: "the (sb body1) = insert body1 T" using True S2T by (simp add: sb_eq)
    have "merge_step (a, b) (m, s) =
      ((\<lambda>k. if k \<in> insert body1 T then Some body2 else (m(body1 \<mapsto> body2)) k),
       sb(body2 \<mapsto> insert body1 T \<union> insert body1 T))"
      using ms d ts True by simp
    also have "\<dots> = ((\<lambda>k. if k = body1 \<or> m k = Some body1 then Some body2 else m k),
            s(body2 \<mapsto> insert body1 (S2 \<union> T)))"
      using True S2T by (auto simp: sb_eq T_def fun_eq_iff)
    finally show ?thesis unfolding S2_def T_def .
  next
    case False
    show ?thesis
    proof (cases "s body1")
      case None
      have nd: "body1 \<notin> dom sb" using None False by (simp add: sb_eq domIff)
      have Te: "T = {}" using I2 None by (fastforce simp: T_def)
      have "merge_step (a, b) (m, s) = (m(body1 \<mapsto> body2), sb)" using ms nd by simp
      also have "\<dots> = ((\<lambda>k. if k = body1 \<or> m k = Some body1 then Some body2 else m k),
            s(body2 \<mapsto> insert body1 (S2 \<union> T)))"
        using Te by (auto simp: sb_eq T_def fun_eq_iff)
      finally show ?thesis unfolding S2_def T_def .
    next
      case (Some S1)
      have d: "body1 \<in> dom sb" using Some False by (simp add: sb_eq domIff)
      have "S1 \<subseteq> T" using I3[OF r1 Some] by (auto simp: T_def)
      moreover have "T \<subseteq> S1" using I2 Some by (fastforce simp: T_def)
      ultimately have S1T: "S1 = T" by blast
      have ts: "the (sb body1) = T" "the (sb body2) = insert body1 S2"
        using Some False S1T by (simp_all add: sb_eq)
      have "merge_step (a, b) (m, s) =
        ((\<lambda>k. if k \<in> T then Some body2 else (m(body1 \<mapsto> body2)) k),
         sb(body2 \<mapsto> insert body1 S2 \<union> T))"
        using ms d ts by simp
      also have "\<dots> = ((\<lambda>k. if k = body1 \<or> m k = Some body1 then Some body2 else m k),
            s(body2 \<mapsto> insert body1 (S2 \<union> T)))"
        by (auto simp: sb_eq T_def fun_eq_iff)
      finally show ?thesis unfolding S2_def T_def .
    qed
  qed
qed

lemma merge_invD2: "merge_inv (m, s) \<Longrightarrow> m k = Some r \<Longrightarrow> \<exists>S. s r = Some S \<and> k \<in> S"
  unfolding merge_inv_def prod.case by blast

lemma merge_invD3: "merge_inv (m, s) \<Longrightarrow> is_root m r \<Longrightarrow> s r = Some S \<Longrightarrow> t \<in> S \<Longrightarrow> m t = Some r"
  unfolding merge_inv_def prod.case by blast

lemma merge_invI:
  assumes "\<And>k v. m k = Some v \<Longrightarrow> is_root m v"
    and "\<And>k r. m k = Some r \<Longrightarrow> \<exists>S. s r = Some S \<and> k \<in> S"
    and "\<And>r S t. is_root m r \<Longrightarrow> s r = Some S \<Longrightarrow> t \<in> S \<Longrightarrow> m t = Some r"
  shows "merge_inv (m, s)"
  unfolding merge_inv_def prod.case using assms by blast

lemma merge_step_find:
  assumes inv: "merge_inv (m, s)"
  shows "find_label (fst (merge_step (a, b) (m, s))) x =
           (if find_label m x = find_label m a then find_label m b else find_label m x)"
proof -
  let ?b1 = "find_label m a" and ?b2 = "find_label m b"
  have r1: "is_root m ?b1" using inv by (rule find_label_root)
  have m': "fst (merge_step (a, b) (m, s)) = (\<lambda>k. if k = ?b1 \<or> m k = Some ?b1 then Some ?b2 else m k)"
    by (simp add: merge_step_closed[OF inv refl refl])
  show ?thesis
  proof (cases "find_label m x = ?b1")
    case True
    then have "x = ?b1 \<or> m x = Some ?b1" using find_label_eq_iff[OF r1] by blast
    then show ?thesis using True by (simp add: m' find_label_def[of "\<lambda>k. if k = ?b1 \<or> m k = Some ?b1 then Some ?b2 else m k"])
  next
    case False
    then have "\<not> (x = ?b1 \<or> m x = Some ?b1)" using find_label_eq_iff[OF r1] by blast
    then show ?thesis using False
      by (simp add: m' find_label_def[of "\<lambda>k. if k = ?b1 \<or> m k = Some ?b1 then Some ?b2 else m k"]
          find_label_def[of m x])
  qed
qed

lemma merge_step_inv:
  assumes inv: "merge_inv (m, s)"
  shows "merge_inv (merge_step (a, b) (m, s))"
proof -
  define b1 where "b1 = find_label m a"
  define b2 where "b2 = find_label m b"
  define S2 where "S2 = (case s b2 of Some S \<Rightarrow> S | None \<Rightarrow> {})"
  define T where "T = {k. m k = Some b1}"
  define m' where "m' = (\<lambda>k. if k = b1 \<or> m k = Some b1 then Some b2 else m k)"
  define s' where "s' = s(b2 \<mapsto> insert b1 (S2 \<union> T))"
  have step: "merge_step (a, b) (m, s) = (m', s')"
    unfolding m'_def s'_def S2_def T_def by (rule merge_step_closed[OF inv b1_def b2_def])
  have r1: "is_root m b1" and r2: "is_root m b2"
    unfolding b1_def b2_def using inv by (rule find_label_root)+
  have m'P: "\<And>k. k = b1 \<or> m k = Some b1 \<Longrightarrow> m' k = Some b2" by (simp add: m'_def)
  have m'N: "\<And>k. \<not> (k = b1 \<or> m k = Some b1) \<Longrightarrow> m' k = m k" by (simp add: m'_def)
  have rootP: "\<And>v. is_root m v \<Longrightarrow> v \<noteq> b1 \<Longrightarrow> \<not> (v = b1 \<or> m v = Some b1)"
    by (auto simp: is_root_def)
  have I1: "\<And>k v. m' k = Some v \<Longrightarrow> is_root m' v"
  proof -
    fix k v assume kv: "m' k = Some v"
    show "is_root m' v"
    proof (cases "k = b1 \<or> m k = Some b1")
      case True
      then have v: "v = b2" using kv m'P by simp
      show ?thesis
      proof (cases "b2 = b1 \<or> m b2 = Some b1")
        case True then show ?thesis using m'P v by (simp add: is_root_def)
      next
        case False then show ?thesis using m'N[OF False] r2 v by (simp add: is_root_def)
      qed
    next
      case False
      then have mk: "m k = Some v" using kv m'N by simp
      then have rv: "is_root m v" using merge_invD1[OF inv] by blast
      have "v \<noteq> b1" using False mk by auto
      then have "m' v = m v" using m'N rootP[OF rv] by blast
      then show ?thesis using rv by (simp add: is_root_def)
    qed
  qed
  have I2: "\<And>k r. m' k = Some r \<Longrightarrow> \<exists>S. s' r = Some S \<and> k \<in> S"
  proof -
    fix k r assume kr: "m' k = Some r"
    show "\<exists>S. s' r = Some S \<and> k \<in> S"
    proof (cases "k = b1 \<or> m k = Some b1")
      case True
      then have "r = b2" using kr m'P by simp
      moreover have "k \<in> insert b1 (S2 \<union> T)" using True by (auto simp: T_def)
      ultimately show ?thesis by (simp add: s'_def)
    next
      case False
      then have mk: "m k = Some r" using kr m'N by simp
      from merge_invD2[OF inv mk] obtain S where S: "s r = Some S" "k \<in> S" by blast
      show ?thesis
      proof (cases "r = b2")
        case True
        then have "k \<in> S2" using S by (simp add: S2_def)
        then show ?thesis using True by (simp add: s'_def)
      next
        case False then show ?thesis using S by (simp add: s'_def)
      qed
    qed
  qed
  have I3: "\<And>r S t. is_root m' r \<Longrightarrow> s' r = Some S \<Longrightarrow> t \<in> S \<Longrightarrow> m' t = Some r"
  proof -
    fix r S t assume rr: "is_root m' r" and sr: "s' r = Some S" and tS: "t \<in> S"
    show "m' t = Some r"
    proof (cases "r = b2")
      case True
      then have S: "S = insert b1 (S2 \<union> T)" using sr by (simp add: s'_def)
      show ?thesis
      proof (cases "t = b1 \<or> m t = Some b1")
        case True then show ?thesis using m'P \<open>r = b2\<close> by simp
      next
        case False
        then have "t \<in> S2" using tS S by (auto simp: T_def)
        then obtain S0 where S0: "s b2 = Some S0" "t \<in> S0"
          by (cases "s b2") (auto simp: S2_def)
        from merge_invD3[OF inv r2 S0] have "m t = Some b2" .
        then show ?thesis using m'N[OF False] \<open>r = b2\<close> by simp
      qed
    next
      case False
      then have sr0: "s r = Some S" using sr by (simp add: s'_def)
      have nP: "\<not> (r = b1 \<or> m r = Some b1)"
      proof
        assume "r = b1 \<or> m r = Some b1"
        then have "m' r = Some b2" by (rule m'P)
        then show False using rr False by (auto simp: is_root_def)
      qed
      then have "m' r = m r" by (rule m'N)
      then have rm: "is_root m r" using rr by (simp add: is_root_def)
      from merge_invD3[OF inv rm sr0 tS] have mt: "m t = Some r" .
      have "\<not> (t = b1 \<or> m t = Some b1)"
      proof
        assume "t = b1 \<or> m t = Some b1"
        then show False
        proof
          assume "t = b1"
          then have "m b1 = Some r" using mt by simp
          then have "r = b1" using r1 by (auto simp: is_root_def)
          then show False using nP by simp
        next
          assume "m t = Some b1"
          then show False using mt nP by simp
        qed
      qed
      then show ?thesis using m'N mt by simp
    qed
  qed
  show ?thesis unfolding step by (rule merge_invI) (fact I1 I2 I3)+
qed

lemma merge_inv_empty: "merge_inv (Map.empty, Map.empty)"
  by (simp add: merge_inv_def)

lemma global_merge_snoc: "global_merge (es @ [e]) = merge_step e (global_merge es)"
  by (simp add: global_merge_def)

lemma global_merge_inv: "merge_inv (global_merge es)"
proof (induction es rule: rev_induct)
  case Nil
  then show ?case by (simp add: global_merge_def merge_inv_empty)
next
  case (snoc e es)
  obtain a b where e: "e = (a, b)" by (cases e)
  obtain m s where ms: "global_merge es = (m, s)" by (cases "global_merge es")
  show ?case using merge_step_inv[of m s a b] snoc.IH by (simp add: global_merge_snoc e ms)
qed

lemma final_label_snoc:
  "final_label (es @ [(a, b)]) x =
     (if final_label es x = final_label es a then final_label es b else final_label es x)"
proof -
  obtain m s where ms: "global_merge es = (m, s)" by (cases "global_merge es")
  have inv: "merge_inv (m, s)" using global_merge_inv[of es] ms by simp
  have f: "\<And>y. final_label es y = find_label m y" by (simp add: final_label_def find_label_def ms)
  have "final_label (es @ [(a, b)]) x = find_label (fst (merge_step (a, b) (m, s))) x"
    by (simp add: final_label_def find_label_def global_merge_snoc ms)
  then show ?thesis using merge_step_find[OF inv, of a b x] by (simp add: f)
qed

lemma final_label_Nil [simp]: "final_label [] x = x"
  by (simp add: final_label_def global_merge_def)

lemma connected_refl [simp]: "connected es x x"
  by (simp add: connected_def)

lemma connected_sym: "connected es x y \<Longrightarrow> connected es y x"
proof -
  assume "connected es x y"
  then have "(x, y) \<in> (set es \<union> (set es)\<inverse>)\<^sup>*" by (simp add: connected_def)
  then have "(y, x) \<in> ((set es \<union> (set es)\<inverse>)\<inverse>)\<^sup>*" by (simp add: rtrancl_converse)
  moreover have "(set es \<union> (set es)\<inverse>)\<inverse> = set es \<union> (set es)\<inverse>" by auto
  ultimately show ?thesis by (simp add: connected_def)
qed

lemma connected_trans: "connected es x y \<Longrightarrow> connected es y z \<Longrightarrow> connected es x z"
  by (auto simp: connected_def)

lemma connected_mono: "connected es x y \<Longrightarrow> connected (es @ [e]) x y"
proof -
  assume "connected es x y"
  moreover have "set es \<union> (set es)\<inverse> \<subseteq> set (es @ [e]) \<union> (set (es @ [e]))\<inverse>" by auto
  ultimately show ?thesis unfolding connected_def using rtrancl_mono by blast
qed

lemma connected_new_edge: "connected (es @ [(a, b)]) a b"
  by (auto simp: connected_def)

lemma connected_snoc:
  "connected (es @ [(a, b)]) x y =
     (connected es x y \<or> (connected es x a \<and> connected es b y) \<or> (connected es x b \<and> connected es a y))"
proof
  assume "connected (es @ [(a, b)]) x y"
  then have "(x, y) \<in> (set (es @ [(a, b)]) \<union> (set (es @ [(a, b)]))\<inverse>)\<^sup>*" by (simp add: connected_def)
  then show "connected es x y \<or> (connected es x a \<and> connected es b y) \<or> (connected es x b \<and> connected es a y)"
  proof (induction rule: rtrancl_induct)
    case base
    then show ?case by simp
  next
    case (step y z)
    from step.hyps(2) consider "(y, z) \<in> set es \<union> (set es)\<inverse>" | "y = a \<and> z = b" | "y = b \<and> z = a"
      by auto
    then show ?case
    proof cases
      case 1
      then have "connected es y z" by (auto simp: connected_def)
      then show ?thesis using step.IH connected_trans by blast
    next
      case 2
      then show ?thesis using step.IH connected_refl connected_trans connected_sym by blast
    next
      case 3
      then show ?thesis using step.IH connected_refl connected_trans connected_sym by blast
    qed
  qed
next
  assume r: "connected es x y \<or> (connected es x a \<and> connected es b y) \<or> (connected es x b \<and> connected es a y)"
  have ab: "connected (es @ [(a, b)]) a b" by (rule connected_new_edge)
  have ba: "connected (es @ [(a, b)]) b a" using ab by (rule connected_sym)
  from r show "connected (es @ [(a, b)]) x y"
    using connected_mono[of es _ _ "(a, b)"] connected_trans[of "es @ [(a, b)]"] ab ba by blast
qed

lemma final_label_connected: "(final_label es x = final_label es y) = connected es x y"
proof (induction es arbitrary: x y rule: rev_induct)
  case Nil
  have "connected [] x y = (x = y)" by (simp add: connected_def)
  then show ?case by simp
next
  case (snoc e es)
  obtain a b where e: "e = (a, b)" by (cases e)
  have IH: "\<And>u v. connected es u v = (final_label es u = final_label es v)" using snoc.IH by simp
  show ?case unfolding e final_label_snoc connected_snoc IH by auto
qed

lemma final_label_idem: "final_label es (final_label es x) = final_label es x"
proof -
  obtain m s where ms: "global_merge es = (m, s)" by (cases "global_merge es")
  have inv: "merge_inv (m, s)" using global_merge_inv[of es] ms by simp
  have f: "\<And>y. final_label es y = find_label m y" by (simp add: final_label_def find_label_def ms)
  have "is_root m (find_label m x)" using inv by (rule find_label_root)
  then have "find_label m (find_label m x) = find_label m x"
    by (auto simp: is_root_def find_label_def[of m "find_label m x"])
  then show ?thesis by (simp add: f)
qed

text \<open>
  C3 (as stated, refuted).  The claim makes the final label of every label of an edge the
  numerically smallest label of its component.  For the single edge \<open>(1, 2)\<close> the loop maps
  label 1 to 2, while the smallest label of the component is 1.
\<close>

theorem stitch_smallest_representative_counterexample:
  "final_label [(1, 2)] 1 \<noteq> smallest_in_component [(1, 2)] 1"
  unfolding final_label_example smallest_example by simp

text \<open>
  C3 (amended).  The final label remapping is that of connected components: two labels get the
  same final label exactly when the candidate edges connect them, every label is mapped to a
  label of its own component, and that representative is mapped to itself.  The
  representative is the one the merge order leaves, not the smallest: an edge \<open>(a, b)\<close>
  gives the component of \<open>a\<close> the current representative of \<open>b\<close>, which \<open>b\<close> keeps.
\<close>

theorem stitch_merge_connected_components:
  "(final_label edges x = final_label edges y) = connected edges x y
   \<and> connected edges x (final_label edges x)
   \<and> final_label edges (final_label edges x) = final_label edges x
   \<and> final_label (edges @ [(a, b)]) a = final_label edges b
   \<and> final_label (edges @ [(a, b)]) b = final_label edges b"
proof -
  have "connected edges x (final_label edges x)"
    using final_label_connected[of edges x "final_label edges x"] final_label_idem[of edges x] by simp
  then show ?thesis
    by (simp add: final_label_connected final_label_idem final_label_snoc)
qed

lemma final_label_chain_example:
  "final_label [(1, 2), (3, 4), (2, 4)] 1 = 4" "final_label [(1, 2), (3, 4), (2, 4)] 3 = 4"
  by (simp_all add: final_label_def global_merge_def merge_step_def Let_def)

theorem stitch_merge_connected_components_witness:
  "final_label [(1, 2), (3, 4), (2, 4)] 1 = 4 \<and> final_label [(1, 2), (3, 4), (2, 4)] 3 = 4
   \<and> connected [(1, 2), (3, 4), (2, 4)] 1 3 \<and> connected [(1, 2), (3, 4), (2, 4)] 1 4"
  using stitch_merge_connected_components[of "[(1, 2), (3, 4), (2, 4)]" 1 3]
    stitch_merge_connected_components[of "[(1, 2), (3, 4), (2, 4)]" 1 4]
    final_label_chain_example
  by simp

section \<open>Stitching: candidate merges in conservative mode\<close>

lemma first_pass_step_conservative:
  "merge_list (first_pass_step (Suc 0) E (b2, d) st) = merge_list st
   \<and> retired_list (first_pass_step (Suc 0) E (b2, d) st) = retired_list st
   \<and> (\<forall>x y. mutual_has (first_pass_step (Suc 0) E (b2, d) st) x y =
         (mutual_has st x y
          \<or> (y = b2 \<and> b2 \<in> E \<and> (\<exists>m t. best_match d = (Some x, m, t) \<and> \<not> below_conservative m t))))"
proof (cases "b2 \<in> E")
  case False
  then show ?thesis by (simp add: first_pass_step_def)
next
  case inE: True
  obtain bs m t where bm: "best_match d = (bs, m, t)" by (cases "best_match d") auto
  show ?thesis
  proof (cases bs)
    case None
    then show ?thesis using inE bm by (simp add: first_pass_step_def)
  next
    case (Some b1)
    show ?thesis
    proof (cases "below_conservative m t")
      case True
      then show ?thesis using inE bm Some by (simp add: first_pass_step_def)
    next
      case False
      have st': "first_pass_step (Suc 0) E (b2, d) st =
          st\<lparr>mutual_list := (mutual_list st)
                 (b1 \<mapsto> (case mutual_list st b1 of None \<Rightarrow> Map.empty | Some partners \<Rightarrow> partners)(b2 \<mapsto> m))\<rparr>"
        using inE bm Some False by (simp add: first_pass_step_def)
      have "\<And>x y. mutual_has (first_pass_step (Suc 0) E (b2, d) st) x y = (mutual_has st x y \<or> (y = b2 \<and> x = b1))"
        unfolding st' by (auto simp: mutual_has_def split: option.splits)
      then show ?thesis using inE bm Some False by (auto simp: st')
    qed
  qed
qed

lemma first_pass_conservative:
  "merge_list (fold (first_pass_step (Suc 0) E) items st) = merge_list st
   \<and> retired_list (fold (first_pass_step (Suc 0) E) items st) = retired_list st
   \<and> (\<forall>x y. mutual_has (fold (first_pass_step (Suc 0) E) items st) x y =
         (mutual_has st x y
          \<or> (y \<in> E \<and> (\<exists>d m t. (y, d) \<in> set items \<and> best_match d = (Some x, m, t) \<and> \<not> below_conservative m t))))"
proof (induction items arbitrary: st)
  case Nil
  then show ?case by simp
next
  case (Cons item items)
  obtain b2 d where item: "item = (b2, d)" by (cases item)
  let ?st1 = "first_pass_step (Suc 0) E (b2, d) st"
  note s = first_pass_step_conservative[of E b2 d st]
  note ih = Cons.IH[of ?st1]
  have "merge_list (fold (first_pass_step (Suc 0) E) (item # items) st) = merge_list st"
    using s ih by (simp add: item)
  moreover have "retired_list (fold (first_pass_step (Suc 0) E) (item # items) st) = retired_list st"
    using s ih by (simp add: item)
  moreover have "\<forall>x y. mutual_has (fold (first_pass_step (Suc 0) E) (item # items) st) x y =
         (mutual_has st x y
          \<or> (y \<in> E \<and> (\<exists>d m t. (y, d) \<in> set (item # items) \<and> best_match d = (Some x, m, t)
                \<and> \<not> below_conservative m t)))"
  proof (intro allI)
    fix x y
    have "mutual_has (fold (first_pass_step (Suc 0) E) (item # items) st) x y =
        (mutual_has ?st1 x y
          \<or> (y \<in> E \<and> (\<exists>d m t. (y, d) \<in> set items \<and> best_match d = (Some x, m, t) \<and> \<not> below_conservative m t)))"
      using ih by (simp add: item)
    also have "mutual_has ?st1 x y = (mutual_has st x y
          \<or> (y = b2 \<and> b2 \<in> E \<and> (\<exists>m t. best_match d = (Some x, m, t) \<and> \<not> below_conservative m t)))"
      using s by blast
    finally show "mutual_has (fold (first_pass_step (Suc 0) E) (item # items) st) x y =
         (mutual_has st x y
          \<or> (y \<in> E \<and> (\<exists>d m t. (y, d) \<in> set (item # items) \<and> best_match d = (Some x, m, t)
                \<and> \<not> below_conservative m t)))"
      by (auto simp: item)
  qed
  ultimately show ?case by blast
qed

lemma second_pass_step_conservative:
  "mutual_list (second_pass_step (Suc 0) E (b1, d) st) = mutual_list st
   \<and> retired_list (second_pass_step (Suc 0) E (b1, d) st) = retired_list st
   \<and> (\<forall>x y. ((x, y) \<in> set (merge_list (second_pass_step (Suc 0) E (b1, d) st))) =
         ((x, y) \<in> set (merge_list st)
          \<or> (x = b1 \<and> b1 \<in> E \<and> (x, y) \<notin> retired_list st \<and> mutual_has st x y
              \<and> (\<exists>m t. best_match d = (Some y, m, t) \<and> \<not> below_conservative m t))))"
proof (cases "b1 \<in> E")
  case False
  then show ?thesis by (simp add: second_pass_step_def)
next
  case inE: True
  obtain bs m t where bm: "best_match d = (bs, m, t)" by (cases "best_match d") auto
  show ?thesis
  proof (cases bs)
    case None
    then show ?thesis using inE bm by (simp add: second_pass_step_def)
  next
    case (Some b2)
    show ?thesis
    proof (cases "(b1, b2) \<in> retired_list st")
      case True
      then show ?thesis using inE bm Some by (auto simp: second_pass_step_def)
    next
      case nr: False
      show ?thesis
      proof (cases "below_conservative m t")
        case True
        then show ?thesis using inE bm Some nr by (auto simp: second_pass_step_def)
      next
        case nb: False
        show ?thesis
        proof (cases "mutual_has st b1 b2")
          case True
          then have "second_pass_step (Suc 0) E (b1, d) st = st\<lparr>merge_list := merge_list st @ [(b1, b2)]\<rparr>"
            using inE bm Some nr nb
            by (auto simp: second_pass_step_def mutual_has_def split: option.splits)
          then show ?thesis using inE bm Some nr nb True by auto
        next
          case False
          then have "second_pass_step (Suc 0) E (b1, d) st = st"
            using inE bm Some nr nb
            by (auto simp: second_pass_step_def mutual_has_def split: option.splits)
          then show ?thesis using inE bm Some nr nb False by auto
        qed
      qed
    qed
  qed
qed

lemma mutual_has_cong:
  "mutual_list st' = mutual_list st \<Longrightarrow> mutual_has st' x y = mutual_has st x y"
  by (simp add: mutual_has_def)

lemma second_pass_conservative:
  "mutual_list (fold (second_pass_step (Suc 0) E) items st) = mutual_list st
   \<and> retired_list (fold (second_pass_step (Suc 0) E) items st) = retired_list st
   \<and> (\<forall>x y. ((x, y) \<in> set (merge_list (fold (second_pass_step (Suc 0) E) items st))) =
         ((x, y) \<in> set (merge_list st)
          \<or> (x \<in> E \<and> (x, y) \<notin> retired_list st \<and> mutual_has st x y
              \<and> (\<exists>d m t. (x, d) \<in> set items \<and> best_match d = (Some y, m, t) \<and> \<not> below_conservative m t))))"
proof (induction items arbitrary: st)
  case Nil
  then show ?case by simp
next
  case (Cons item items)
  obtain b1 d where item: "item = (b1, d)" by (cases item)
  let ?st1 = "second_pass_step (Suc 0) E (b1, d) st"
  note s = second_pass_step_conservative[of E b1 d st]
  note ih = Cons.IH[of ?st1]
  have ml: "mutual_list ?st1 = mutual_list st" and rl: "retired_list ?st1 = retired_list st"
    using s by blast+
  have mh: "\<And>x y. mutual_has ?st1 x y = mutual_has st x y" using ml by (rule mutual_has_cong)
  have "mutual_list (fold (second_pass_step (Suc 0) E) (item # items) st) = mutual_list st"
    using ml ih by (simp add: item)
  moreover have "retired_list (fold (second_pass_step (Suc 0) E) (item # items) st) = retired_list st"
    using rl ih by (simp add: item)
  moreover have "\<forall>x y. ((x, y) \<in> set (merge_list (fold (second_pass_step (Suc 0) E) (item # items) st))) =
         ((x, y) \<in> set (merge_list st)
          \<or> (x \<in> E \<and> (x, y) \<notin> retired_list st \<and> mutual_has st x y
              \<and> (\<exists>d m t. (x, d) \<in> set (item # items) \<and> best_match d = (Some y, m, t)
                    \<and> \<not> below_conservative m t)))"
  proof (intro allI)
    fix x y
    have "((x, y) \<in> set (merge_list (fold (second_pass_step (Suc 0) E) (item # items) st))) =
        ((x, y) \<in> set (merge_list ?st1)
          \<or> (x \<in> E \<and> (x, y) \<notin> retired_list st \<and> mutual_has st x y
              \<and> (\<exists>d m t. (x, d) \<in> set items \<and> best_match d = (Some y, m, t) \<and> \<not> below_conservative m t)))"
      using ih by (simp add: item rl mh)
    also have "((x, y) \<in> set (merge_list ?st1)) =
        ((x, y) \<in> set (merge_list st)
          \<or> (x = b1 \<and> b1 \<in> E \<and> (x, y) \<notin> retired_list st \<and> mutual_has st x y
              \<and> (\<exists>m t. best_match d = (Some y, m, t) \<and> \<not> below_conservative m t)))"
      using s by blast
    finally show "((x, y) \<in> set (merge_list (fold (second_pass_step (Suc 0) E) (item # items) st))) =
         ((x, y) \<in> set (merge_list st)
          \<or> (x \<in> E \<and> (x, y) \<notin> retired_list st \<and> mutual_has st x y
              \<and> (\<exists>d m t. (x, d) \<in> set (item # items) \<and> best_match d = (Some y, m, t)
                    \<and> \<not> below_conservative m t)))"
      by (auto simp: item)
  qed
  ultimately show ?case by blast
qed

lemma tally_total:
  assumes "\<forall>p \<in> set pairs. fst p \<noteq> 0 \<and> snd p \<noteq> 0 \<longrightarrow> fst p \<in> fst ` set d"
  shows "\<exists>d'. tally pairs d = Inr d' \<and> fst ` set d' = fst ` set d"
  using assms
proof (induction pairs arbitrary: d)
  case Nil
  then show ?case by simp
next
  case (Cons p pairs)
  obtain outer inner where p: "p = (outer, inner)" by (cases p)
  show ?case
  proof (cases "outer = 0 \<or> inner = 0")
    case True
    then show ?thesis using Cons.IH[of d] Cons.prems by (simp add: p)
  next
    case False
    then have "outer \<in> fst ` set d" using Cons.prems by (simp add: p)
    then obtain bodydict where bd: "map_of d outer = Some bodydict"
      by (metis map_of_eq_None_iff not_None_eq)
    let ?d1 = "AList.update outer
                 (AList.update inner (case map_of bodydict inner of None \<Rightarrow> 0 + 1 | Some c \<Rightarrow> c + 1) bodydict) d"
    have keys: "fst ` set ?d1 = fst ` set d"
      using \<open>outer \<in> fst ` set d\<close> by (auto simp: dom_update)
    have "\<forall>p \<in> set pairs. fst p \<noteq> 0 \<and> snd p \<noteq> 0 \<longrightarrow> fst p \<in> fst ` set ?d1"
      using Cons.prems keys by simp
    from Cons.IH[OF this] obtain d' where "tally pairs ?d1 = Inr d'" "fst ` set d' = fst ` set ?d1"
      by blast
    then show ?thesis using False bd keys by (simp add: p)
  qed
qed

lemma empty_votes_keys: "fst ` set (empty_votes labels) = {l \<in> set labels. l \<noteq> 0}"
  by (auto simp: empty_votes_def np_unique_def image_iff)

lemma overlap_votes_total: "\<exists>votes. overlap_votes stitch_mode pairs = Inr votes"
proof (cases "stitch_mode > 0")
  case False
  then show ?thesis by (simp add: overlap_votes_def)
next
  case True
  have "\<forall>p \<in> set pairs. fst p \<noteq> 0 \<and> snd p \<noteq> 0 \<longrightarrow> fst p \<in> fst ` set (empty_votes (map fst pairs))"
    by (auto simp: empty_votes_keys)
  from tally_total[OF this] show ?thesis using True by (auto simp: overlap_votes_def)
qed

lemma best_match_loop_spec:
  assumes "best_match_loop items (bs0, m0, t0) = (Some b, m, t)"
  shows "t = t0 + sum_list (map snd items)
         \<and> m0 \<le> m \<and> (\<forall>v \<in> snd ` set items. v \<le> m)
         \<and> ((bs0 = Some b \<and> m = m0) \<or> ((b, m) \<in> set items \<and> m0 < m))"
  using assms
proof (induction items arbitrary: bs0 m0 t0)
  case Nil
  then show ?case by simp
next
  case (Cons item items)
  obtain body val where item: "item = (body, val)" by (cases item)
  show ?case
  proof (cases "val > m0")
    case True
    then have "best_match_loop items (Some body, val, t0 + val) = (Some b, m, t)"
      using Cons.prems by (simp add: item)
    from Cons.IH[OF this] show ?thesis using True by (auto simp: item)
  next
    case False
    then have "best_match_loop items (bs0, m0, t0 + val) = (Some b, m, t)"
      using Cons.prems by (simp add: item)
    from Cons.IH[OF this] show ?thesis using False by (auto simp: item)
  qed
qed

lemma best_match_spec:
  assumes "best_match bodydict = (Some b, m, t)"
  shows "(b, m) \<in> set bodydict \<and> hard_lb < m \<and> (\<forall>v \<in> snd ` set bodydict. v \<le> m)
         \<and> t = sum_list (map snd bodydict)"
  using best_match_loop_spec[OF assms[unfolded best_match_def]] by auto

lemma votes1_example:
  "overlap_votes 1 example_boundary = Inr [(1, [(5, 51)]), (2, [(5, 459)])]"
  by code_simp

lemma votes2_example:
  "overlap_votes 1 (map prod.swap example_boundary) = Inr [(5, [(1, 51), (2, 459)])]"
  by code_simp

lemma best_match_example:
  "best_match [(5, 51)] = (Some 5, 51, 51)" "best_match [(1, 51), (2, 459)] = (Some 2, 459, 510)"
  by code_simp+

lemma stitcher_example: "stitcher 1 example_boundary example_boundary 10 20 = Inr [(12, 25)]"
  by code_simp

text \<open>
  C4 (as stated, refuted).  On the example boundary in conservative mode, the best overlap of
  label 1 is label 5 with 51 voxels, above the hard threshold, and 51 of its 51 overlapping
  voxels: \<open>best / total\<close> is not below 0.90.  No edge of labels 1 and 5 is emitted all the
  same (the offsets are 10 and 20), since the best overlap of label 5 is label 2.
\<close>

theorem conservative_ratio_alone_counterexample:
  "overlap_votes 1 example_boundary = Inr [(1, [(5, 51)]), (2, [(5, 459)])]
   \<and> best_match [(5, 51)] = (Some 5, 51, 51) \<and> hard_lb < 51 \<and> \<not> below_conservative 51 51
   \<and> stitcher 1 example_boundary example_boundary 10 20 = Inr [(12, 25)]
   \<and> (1 + 10, 5 + 20) \<notin> set [(12 :: nat, 25 :: nat)]"
  using votes1_example best_match_example(1) stitcher_example
  by (simp add: hard_lb_def below_conservative_def)

text \<open>
  C4 (amended).  In conservative mode \<^verbatim>\<open>stitcher\<close> returns, and it emits the edge of a label
  \<open>body1\<close> of the first side and a label \<open>body2\<close> of the second side exactly when both labels
  lie on the interface plane, \<open>body2\<close> is the best overlap of \<open>body1\<close> (above the hard threshold,
  which \<open>best_match\<close> returning a label says) with \<open>best / total\<close> not below 0.90, and \<open>body1\<close>
  is in turn the best overlap of \<open>body2\<close> with \<open>best / total\<close> not below 0.90: the match must
  be mutual.
\<close>

theorem conservative_requires_mutual_best:
  assumes "overlap_votes 1 voxels = Inr votes1"
    and "overlap_votes 1 (map prod.swap voxels) = Inr votes2"
  shows "\<exists>edges. stitcher 1 voxels plane offset1 offset2 = Inr edges
           \<and> (((body1 + offset1, body2 + offset2) \<in> set edges) =
                (body1 \<in> fst ` set plane \<and> body2 \<in> snd ` set plane
                 \<and> (\<exists>bodydict m t. (body1, bodydict) \<in> set votes1
                        \<and> best_match bodydict = (Some body2, m, t) \<and> \<not> below_conservative m t)
                 \<and> (\<exists>bodydict m t. (body2, bodydict) \<in> set votes2
                        \<and> best_match bodydict = (Some body1, m, t) \<and> \<not> below_conservative m t)))"
proof -
  define E1 where "E1 = set (map fst plane)"
  define E2 where "E2 = set (map snd plane)"
  define st0 where "st0 = \<lparr>merge_list = [], mutual_list = Map.empty, retired_list = {}\<rparr>"
  define st1 where "st1 = fold (first_pass_step (Suc 0) E2) votes2 st0"
  define st2 where "st2 = fold (second_pass_step (Suc 0) E1) votes1 st1"
  define edges where "edges = map (\<lambda>merger. (fst merger + offset1, snd merger + offset2)) (merge_list st2)"
  have res: "stitcher 1 voxels plane offset1 offset2 = Inr edges"
    using assms unfolding stitcher_def Let_def edges_def st2_def st1_def st0_def E1_def E2_def
    by (simp del: set_map)
  note p1 = first_pass_conservative[of E2 votes2 st0, folded st1_def]
  note p2 = second_pass_conservative[of E1 votes1 st1, folded st2_def]
  have m1: "merge_list st1 = []" and r1: "retired_list st1 = {}" using p1 by (simp_all add: st0_def)
  have no0: "\<not> mutual_has st0 body1 body2" by (simp add: mutual_has_def st0_def)
  have "mutual_has st1 body1 body2 =
      (mutual_has st0 body1 body2
       \<or> (body2 \<in> E2 \<and> (\<exists>d m t. (body2, d) \<in> set votes2 \<and> best_match d = (Some body1, m, t)
          \<and> \<not> below_conservative m t)))"
    using p1 by blast
  then have mh: "mutual_has st1 body1 body2 =
      (body2 \<in> E2 \<and> (\<exists>d m t. (body2, d) \<in> set votes2 \<and> best_match d = (Some body1, m, t)
          \<and> \<not> below_conservative m t))"
    using no0 by simp
  have "((body1, body2) \<in> set (merge_list st2)) =
      ((body1, body2) \<in> set (merge_list st1)
       \<or> (body1 \<in> E1 \<and> (body1, body2) \<notin> retired_list st1 \<and> mutual_has st1 body1 body2
        \<and> (\<exists>d m t. (body1, d) \<in> set votes1 \<and> best_match d = (Some body2, m, t) \<and> \<not> below_conservative m t)))"
    using p2 by blast
  then have ml: "((body1, body2) \<in> set (merge_list st2)) =
      (body1 \<in> E1 \<and> mutual_has st1 body1 body2
        \<and> (\<exists>d m t. (body1, d) \<in> set votes1 \<and> best_match d = (Some body2, m, t) \<and> \<not> below_conservative m t))"
    by (simp add: m1 r1)
  have off: "((body1 + offset1, body2 + offset2) \<in> set edges) = ((body1, body2) \<in> set (merge_list st2))"
  proof
    assume "(body1 + offset1, body2 + offset2) \<in> set edges"
    then obtain mg where mg: "mg \<in> set (merge_list st2)" "fst mg + offset1 = body1 + offset1"
      "snd mg + offset2 = body2 + offset2" by (auto simp: edges_def)
    have "fst mg = body1" "snd mg = body2" using mg(2,3) by simp_all
    then have "mg = (body1, body2)" by (simp add: prod_eq_iff)
    then show "(body1, body2) \<in> set (merge_list st2)" using mg(1) by simp
  next
    assume "(body1, body2) \<in> set (merge_list st2)"
    then show "(body1 + offset1, body2 + offset2) \<in> set edges" by (force simp: edges_def)
  qed
  have E: "E1 = fst ` set plane" "E2 = snd ` set plane" by (simp_all add: E1_def E2_def)
  have "((body1 + offset1, body2 + offset2) \<in> set edges) =
                (body1 \<in> fst ` set plane \<and> body2 \<in> snd ` set plane
                 \<and> (\<exists>bodydict m t. (body1, bodydict) \<in> set votes1
                        \<and> best_match bodydict = (Some body2, m, t) \<and> \<not> below_conservative m t)
                 \<and> (\<exists>bodydict m t. (body2, bodydict) \<in> set votes2
                        \<and> best_match bodydict = (Some body1, m, t) \<and> \<not> below_conservative m t))"
    unfolding off ml mh E by blast
  then show ?thesis using res by blast
qed

theorem conservative_requires_mutual_best_witness:
  "overlap_votes 1 example_boundary = Inr [(1, [(5, 51)]), (2, [(5, 459)])]
   \<and> overlap_votes 1 (map prod.swap example_boundary) = Inr [(5, [(1, 51), (2, 459)])]
   \<and> stitcher 1 example_boundary example_boundary 10 20 = Inr [(12, 25)]
   \<and> (\<exists>bodydict m t. (2 :: nat, bodydict) \<in> set [(1, [(5, 51)]), (2, [(5, 459)])]
          \<and> best_match bodydict = (Some 5, m, t) \<and> \<not> below_conservative m t)
   \<and> (\<exists>bodydict m t. (5 :: nat, bodydict) \<in> set [(5, [(1, 51), (2, 459)])]
          \<and> best_match bodydict = (Some 2, m, t) \<and> \<not> below_conservative m t)"
proof -
  from conservative_requires_mutual_best[OF votes1_example votes2_example,
      of example_boundary 10 20 2 5]
  obtain edges where e: "stitcher 1 example_boundary example_boundary 10 20 = Inr edges"
    "((2 + 10, 5 + 20) \<in> set edges) =
       (2 \<in> fst ` set example_boundary \<and> 5 \<in> snd ` set example_boundary
        \<and> (\<exists>bodydict m t. (2 :: nat, bodydict) \<in> set [(1, [(5, 51)]), (2, [(5, 459)])]
               \<and> best_match bodydict = (Some 5, m, t) \<and> \<not> below_conservative m t)
        \<and> (\<exists>bodydict m t. (5 :: nat, bodydict) \<in> set [(5, [(1, 51), (2, 459)])]
               \<and> best_match bodydict = (Some 2, m, t) \<and> \<not> below_conservative m t))"
    by blast
  have "edges = [(12, 25)]" using e(1) stitcher_example by simp
  then have "(2 + 10, 5 + 20) \<in> set edges" by simp
  then show ?thesis using e(2) votes1_example votes2_example stitcher_example by blast
qed

section \<open>Stitching preserves the background\<close>

lemma set_update_subset: "set (AList.update k v al) \<subseteq> insert (k, v) (set al)"
  by (induction al) auto

lemma tally_skips_background:
  "tally pairs d = tally (filter (\<lambda>p. fst p \<noteq> 0 \<and> snd p \<noteq> 0) pairs) d"
proof (induction pairs arbitrary: d)
  case Nil
  then show ?case by simp
next
  case (Cons p pairs)
  obtain outer inner where p: "p = (outer, inner)" by (cases p)
  show ?case
  proof (cases "outer = 0 \<or> inner = 0")
    case True
    then show ?thesis using Cons.IH[of d] by (auto simp: p)
  next
    case False
    then show ?thesis using Cons.IH by (simp add: p split: option.splits)
  qed
qed

lemma tally_nonzero:
  assumes "tally pairs d = Inr d'" "votes_nonzero d"
  shows "votes_nonzero d'"
  using assms
proof (induction pairs arbitrary: d)
  case Nil
  then show ?case by simp
next
  case (Cons p pairs)
  obtain outer inner where p: "p = (outer, inner)" by (cases p)
  show ?case
  proof (cases "outer = 0 \<or> inner = 0")
    case True
    then show ?thesis using Cons by (simp add: p)
  next
    case False
    then obtain bodydict where bd: "map_of d outer = Some bodydict"
      using Cons.prems(1) by (cases "map_of d outer") (simp_all add: p)
    define c where "c = (case map_of bodydict inner of None \<Rightarrow> 0 + 1 | Some c \<Rightarrow> c + (1::nat))"
    let ?bd1 = "AList.update inner c bodydict"
    let ?d1 = "AList.update outer ?bd1 d"
    have t: "tally pairs ?d1 = Inr d'" using Cons.prems(1) False bd by (simp add: p c_def)
    have "(outer, bodydict) \<in> set d" using bd by (rule map_of_SomeD)
    then have old: "\<forall>item \<in> set bodydict. fst item \<noteq> 0" using Cons.prems(2) by (auto simp: votes_nonzero_def)
    have "\<forall>item \<in> set ?bd1. fst item \<noteq> 0"
      using set_update_subset[of inner c bodydict] old False by auto
    then have "votes_nonzero ?d1"
      using set_update_subset[of outer ?bd1 d] Cons.prems(2) False
      unfolding votes_nonzero_def by (metis (no_types, lifting) fst_conv insertE snd_conv subsetD)
    from Cons.IH[OF t this] show ?thesis .
  qed
qed

lemma empty_votes_nonzero: "votes_nonzero (empty_votes labels)"
  by (auto simp: votes_nonzero_def empty_votes_def)

lemma overlap_votes_nonzero:
  assumes "overlap_votes stitch_mode pairs = Inr votes"
  shows "votes_nonzero votes"
proof (cases "stitch_mode > 0")
  case True
  then have "tally pairs (empty_votes (map fst pairs)) = Inr votes"
    using assms by (simp add: overlap_votes_def)
  then show ?thesis using empty_votes_nonzero by (rule tally_nonzero)
next
  case False
  then have "votes = []" using assms by (simp add: overlap_votes_def)
  then show ?thesis by (simp add: votes_nonzero_def)
qed

lemma best_match_key: "best_match bodydict = (Some b, m, t) \<Longrightarrow> b \<in> fst ` set bodydict"
proof -
  assume "best_match bodydict = (Some b, m, t)"
  then have "(b, m) \<in> set bodydict" using best_match_spec by blast
  then show ?thesis by force
qed

lemma first_pass_step_nonzero:
  assumes "edges_nonzero st" "k \<noteq> 0" "\<forall>item \<in> set d. fst item \<noteq> 0"
  shows "edges_nonzero (first_pass_step stitch_mode E (k, d) st)"
proof -
  obtain bs m t where bm: "best_match d = (bs, m, t)" by (cases "best_match d") auto
  show ?thesis
  proof (cases bs)
    case None
    then show ?thesis using assms(1) bm by (simp add: first_pass_step_def)
  next
    case (Some b)
    then have "b \<in> fst ` set d" using bm best_match_key by blast
    then have "b \<noteq> 0" using assms(3) by auto
    then show ?thesis using assms(1,2) bm Some
      by (auto simp: first_pass_step_def edges_nonzero_def)
  qed
qed

lemma second_pass_step_nonzero:
  assumes "edges_nonzero st" "k \<noteq> 0" "\<forall>item \<in> set d. fst item \<noteq> 0"
  shows "edges_nonzero (second_pass_step stitch_mode E (k, d) st)"
proof -
  obtain bs m t where bm: "best_match d = (bs, m, t)" by (cases "best_match d") auto
  show ?thesis
  proof (cases bs)
    case None
    then show ?thesis using assms(1) bm by (simp add: second_pass_step_def)
  next
    case (Some b)
    then have "b \<in> fst ` set d" using bm best_match_key by blast
    then have "b \<noteq> 0" using assms(3) by auto
    then show ?thesis using assms(1,2) bm Some
      by (auto simp: second_pass_step_def edges_nonzero_def split: option.splits)
  qed
qed

lemma first_pass_nonzero:
  "edges_nonzero st \<Longrightarrow> votes_nonzero items \<Longrightarrow> edges_nonzero (fold (first_pass_step stitch_mode E) items st)"
proof (induction items arbitrary: st)
  case Nil
  then show ?case by simp
next
  case (Cons item items)
  obtain k d where item: "item = (k, d)" by (cases item)
  have "edges_nonzero (first_pass_step stitch_mode E (k, d) st)"
    using Cons.prems by (intro first_pass_step_nonzero) (auto simp: votes_nonzero_def item)
  moreover have "votes_nonzero items" using Cons.prems(2) by (simp add: votes_nonzero_def)
  ultimately show ?case using Cons.IH by (simp add: item)
qed

lemma second_pass_nonzero:
  "edges_nonzero st \<Longrightarrow> votes_nonzero items \<Longrightarrow> edges_nonzero (fold (second_pass_step stitch_mode E) items st)"
proof (induction items arbitrary: st)
  case Nil
  then show ?case by simp
next
  case (Cons item items)
  obtain k d where item: "item = (k, d)" by (cases item)
  have "edges_nonzero (second_pass_step stitch_mode E (k, d) st)"
    using Cons.prems by (intro second_pass_step_nonzero) (auto simp: votes_nonzero_def item)
  moreover have "votes_nonzero items" using Cons.prems(2) by (simp add: votes_nonzero_def)
  ultimately show ?case using Cons.IH by (simp add: item)
qed

lemma stitcher_total: "\<exists>edges. stitcher stitch_mode voxels plane offset1 offset2 = Inr edges"
proof -
  obtain v2 where v2: "overlap_votes stitch_mode (map prod.swap voxels) = Inr v2"
    using overlap_votes_total by blast
  obtain v1 where v1: "overlap_votes stitch_mode voxels = Inr v1"
    using overlap_votes_total by blast
  show ?thesis by (simp add: stitcher_def v1 v2 Let_def)
qed

lemma stitcher_edges_above_offsets:
  assumes "stitcher stitch_mode voxels plane offset1 offset2 = Inr edges" "merger \<in> set edges"
  shows "offset1 < fst merger \<and> offset2 < snd merger"
proof -
  obtain v2 where v2: "overlap_votes stitch_mode (map prod.swap voxels) = Inr v2"
    using overlap_votes_total by blast
  obtain v1 where v1: "overlap_votes stitch_mode voxels = Inr v1"
    using overlap_votes_total by blast
  define st0 where "st0 = \<lparr>merge_list = [], mutual_list = Map.empty, retired_list = {}\<rparr>"
  define st1 where "st1 = fold (first_pass_step stitch_mode (set (map snd plane))) v2 st0"
  define st2 where "st2 = fold (second_pass_step stitch_mode (set (map fst plane))) v1 st1"
  have e: "edges = map (\<lambda>merger. (fst merger + offset1, snd merger + offset2)) (merge_list st2)"
    using assms(1) unfolding stitcher_def v1 v2 Let_def st2_def st1_def st0_def by simp
  have "edges_nonzero st0" by (simp add: edges_nonzero_def st0_def)
  then have "edges_nonzero st1" unfolding st1_def
    using overlap_votes_nonzero[OF v2] by (rule first_pass_nonzero)
  then have "edges_nonzero st2" unfolding st2_def
    using overlap_votes_nonzero[OF v1] by (rule second_pass_nonzero)
  then show ?thesis using assms(2) unfolding e edges_nonzero_def by auto
qed

lemma global_merge_labels:
  "dom (fst (global_merge es)) \<union> ran (fst (global_merge es)) \<subseteq> labels_of es"
proof (induction es rule: rev_induct)
  case Nil
  then show ?case by (simp add: global_merge_def)
next
  case (snoc e es)
  obtain a b where e: "e = (a, b)" by (cases e)
  obtain m s where ms: "global_merge es = (m, s)" by (cases "global_merge es")
  have inv: "merge_inv (m, s)" using global_merge_inv[of es] ms by simp
  have IH: "dom m \<union> ran m \<subseteq> labels_of es" using snoc.IH ms by simp
  define b1 where "b1 = find_label m a"
  define b2 where "b2 = find_label m b"
  have m': "fst (global_merge (es @ [e])) = (\<lambda>k. if k = b1 \<or> m k = Some b1 then Some b2 else m k)"
    by (simp add: global_merge_snoc e ms merge_step_closed[OF inv b1_def b2_def])
  have fa: "b1 \<in> insert a (ran m)" "b2 \<in> insert b (ran m)"
    by (auto simp: b1_def b2_def find_label_def ran_def split: option.splits)
  have sub: "labels_of es \<subseteq> labels_of (es @ [e])" "a \<in> labels_of (es @ [e])" "b \<in> labels_of (es @ [e])"
    by (auto simp: labels_of_def e)
  have "dom (\<lambda>k. if k = b1 \<or> m k = Some b1 then Some b2 else m k) \<subseteq> insert b1 (dom m)"
    by (auto split: if_splits)
  moreover have "ran (\<lambda>k. if k = b1 \<or> m k = Some b1 then Some b2 else m k) \<subseteq> insert b2 (ran m)"
    by (auto simp: ran_def split: if_splits)
  ultimately show ?case unfolding m' using fa IH sub by blast
qed

lemma relabel_background:
  assumes "\<forall>merger \<in> set merge_edges. 0 < fst merger \<and> 0 < snd merger"
  shows "relabel label_offset (fst (global_merge merge_edges)) 0 = 0"
proof -
  have "0 \<notin> labels_of merge_edges" using assms by (auto simp: labels_of_def)
  then have "0 \<notin> dom (fst (global_merge merge_edges))" using global_merge_labels by blast
  then have "fst (global_merge merge_edges) 0 = None" by (simp add: domIff)
  then show ?thesis by (simp add: relabel_def)
qed

lemma collected_merge_list_positive:
  assumes "collected_merge_list stitch_mode boundaries = Inr merge_edges" "merger \<in> set merge_edges"
  shows "0 < fst merger \<and> 0 < snd merger"
proof -
  let ?f = "\<lambda>(voxels, plane, offset1, offset2). stitcher stitch_mode voxels plane offset1 offset2"
  from assms(1) obtain mappings where m: "map_result ?f boundaries = Inr mappings"
    "merge_edges = concat mappings"
    by (auto simp: collected_merge_list_def split: sum.splits)
  from assms(2) m(2) obtain mapping where mp: "mapping \<in> set mappings" "merger \<in> set mapping" by auto
  from map_result_elem[OF m(1) mp(1)] obtain bd where "?f bd = Inr mapping" by blast
  then obtain voxels plane offset1 offset2 where
    "stitcher stitch_mode voxels plane offset1 offset2 = Inr mapping" by (cases bd) auto
  from stitcher_edges_above_offsets[OF this mp(2)] show ?thesis by auto
qed

lemma collected_merge_list_total:
  "\<exists>merge_edges. collected_merge_list stitch_mode boundaries = Inr merge_edges"
proof -
  let ?f = "\<lambda>(voxels, plane, offset1, offset2). stitcher stitch_mode voxels plane offset1 offset2"
  have "\<forall>x \<in> set boundaries. \<exists>y. ?f x = Inr y" using stitcher_total by (auto split: prod.splits)
  from map_result_total[OF this] show ?thesis by (auto simp: collected_merge_list_def)
qed

text \<open>
  C10. A voxel pair with a 0 on either side adds no vote; every edge that \<^verbatim>\<open>stitcher\<close> returns
  has both labels strictly above the offsets of their subvolumes, so none is an offset
  background label; and with the merge map built from the edges collected from all boundary
  pairs, \<^verbatim>\<open>relabel\<close> sends local label 0 to global label 0, whatever the subvolume's offset.
\<close>

theorem stitching_preserves_background:
  "tally pairs votes = tally (filter (\<lambda>p. fst p \<noteq> 0 \<and> snd p \<noteq> 0) pairs) votes
   \<and> (\<exists>edges. stitcher stitch_mode voxels plane offset1 offset2 = Inr edges
          \<and> list_all (\<lambda>merger. offset1 < fst merger \<and> offset2 < snd merger) edges)
   \<and> (\<exists>merge_edges. collected_merge_list stitch_mode boundaries = Inr merge_edges
          \<and> relabel label_offset (fst (global_merge merge_edges)) 0 = 0)"
proof -
  obtain edges where e: "stitcher stitch_mode voxels plane offset1 offset2 = Inr edges"
    using stitcher_total by blast
  have "list_all (\<lambda>merger. offset1 < fst merger \<and> offset2 < snd merger) edges"
    using stitcher_edges_above_offsets[OF e] by (simp add: list_all_iff)
  moreover obtain merge_edges where c: "collected_merge_list stitch_mode boundaries = Inr merge_edges"
    using collected_merge_list_total by blast
  moreover have "relabel label_offset (fst (global_merge merge_edges)) 0 = 0"
    using collected_merge_list_positive[OF c] by (intro relabel_background) blast
  ultimately show ?thesis using e tally_skips_background by blast
qed

lemma collected_example:
  "collected_merge_list 1 [(example_boundary, example_boundary, 10, 20)] = Inr [(12, 25)]"
  by (simp only: collected_merge_list_def map_result.simps prod.case stitcher_example sum.case
      concat.simps append_Nil2)

theorem stitching_preserves_background_witness:
  "stitcher 1 example_boundary example_boundary 10 20 = Inr [(12, 25)]
   \<and> collected_merge_list 1 [(example_boundary, example_boundary, 10, 20)] = Inr [(12, 25)]
   \<and> relabel 10 (fst (global_merge [(12, 25)])) 0 = 0
   \<and> relabel 20 (fst (global_merge [(12, 25)])) 0 = 0
   \<and> relabel 10 (fst (global_merge [(12, 25)])) 2 = 25"
proof -
  have "\<And>off. relabel off (fst (global_merge [(12, 25)])) 0 = 0"
    using stitching_preserves_background[of _ _ 1 _ _ _ _ "[(example_boundary, example_boundary, 10, 20)]"]
      collected_example by auto
  moreover have "relabel 10 (fst (global_merge [(12, 25)])) 2 = 25"
    by (simp add: relabel_def global_merge_def merge_step_def Let_def)
  ultimately show ?thesis using stitcher_example collected_example by simp
qed

section \<open>Round-trip re-grid\<close>

lemma vmod_zero_dvd:
  assumes "vless (0, 0, 0) bs"
  shows "(vmod v bs = (0, 0, 0)) =
           (fst bs dvd fst v \<and> fst (snd bs) dvd fst (snd v) \<and> snd (snd bs) dvd snd (snd v))"
  using assms
  by (cases v rule: prod.exhaust; cases bs rule: prod.exhaust)
     (auto simp: mod_eq_0_iff_dvd split: prod.splits)

lemma grid_starts_dvd:
  assumes "vless (0, 0, 0) bs" "st \<in> set (grid_starts B bs)"
  shows "vmod st bs = (0, 0, 0)"
proof -
  obtain z0 y0 x0 z1 y1 x1 where B: "B = ((z0, y0, x0), (z1, y1, x1))" by (metis prod.exhaust)
  obtain sz sy sx where bs: "bs = (sz, sy, sx)" by (metis prod.exhaust)
  obtain a b c where st: "st = (a, b, c)" by (metis prod.exhaust)
  have pos: "0 < sz" "0 < sy" "0 < sx" using assms bs by simp_all
  have "sz dvd a" "sy dvd b" "sx dvd c"
    using assms(2) pos by (simp_all add: grid_starts_def B bs st axis_starts_set)
  then show ?thesis using pos by (simp add: st bs)
qed

lemma grid_boxes_block:
  assumes "vless (0, 0, 0) (block_shape G)" "L \<in> set (grid_boxes B G)"
  shows "grid_block G L"
proof -
  obtain st where st: "st \<in> set (grid_starts (box_sub B (offset G)) (block_shape G))"
    "L = box_add (st, vadd st (block_shape G)) (offset G)" using assms(2) by (auto simp: grid_boxes_def)
  have d: "vmod st (block_shape G) = (0, 0, 0)" using grid_starts_dvd[OF assms(1) st(1)] .
  have "snd L = vadd (fst L) (block_shape G)"
    unfolding st(2) box_add_def
    by (cases st rule: prod.exhaust; cases "block_shape G" rule: prod.exhaust;
        cases "offset G" rule: prod.exhaust) (auto split: prod.splits)
  moreover have "vsub (fst L) (offset G) = st" by (simp add: st(2) box_add_def)
  ultimately show ?thesis using d by (simp add: grid_block_def)
qed

lemma nonempty_intersection_point:
  assumes "\<not> box_empty (box_intersection a b)"
  shows "in_box (fst (box_intersection a b)) a \<and> in_box (fst (box_intersection a b)) b"
  using assms
  by (cases a rule: prod.exhaust; cases b rule: prod.exhaust)
     (auto simp: box_empty_def box_intersection_def in_box_def split: prod.splits)

lemma grid_block_unique:
  assumes pos: "vless (0, 0, 0) (block_shape G)"
    and "grid_block G L" "grid_block G L'" "in_box p L" "in_box p L'"
  shows "L = L'"
proof -
  obtain sz sy sx where bs: "block_shape G = (sz, sy, sx)" by (metis prod.exhaust)
  obtain oz oy ox where off: "offset G = (oz, oy, ox)" by (metis prod.exhaust)
  obtain z y x where p: "p = (z, y, x)" by (metis prod.exhaust)
  obtain a b c e where L: "L = ((a, b, c), e)" by (metis prod.exhaust)
  obtain a' b' c' e' where L': "L' = ((a', b', c'), e')" by (metis prod.exhaust)
  have ps: "0 < sz" "0 < sy" "0 < sx" using pos bs by simp_all
  have e: "e = (a + sz, b + sy, c + sx)" "e' = (a' + sz, b' + sy, c' + sx)"
    using assms(2,3) by (simp_all add: grid_block_def L L' bs)
  have d: "sz dvd a - oz" "sy dvd b - oy" "sx dvd c - ox" "sz dvd a' - oz" "sy dvd b' - oy" "sx dvd c' - ox"
    using assms(2,3) ps by (simp_all add: grid_block_def L L' bs off mod_eq_0_iff_dvd)
  have i: "a - oz \<le> z - oz" "z - oz < a - oz + sz" "b - oy \<le> y - oy" "y - oy < b - oy + sy"
    "c - ox \<le> x - ox" "x - ox < c - ox + sx"
    using assms(4) by (simp_all add: in_box_def p L e)
  have i': "a' - oz \<le> z - oz" "z - oz < a' - oz + sz" "b' - oy \<le> y - oy" "y - oy < b' - oy + sy"
    "c' - ox \<le> x - ox" "x - ox < c' - ox + sx"
    using assms(5) by (simp_all add: in_box_def p L' e)
  have "a - oz = a' - oz"
    using axis_block_unique[OF ps(1) d(1) i(1,2)] axis_block_unique[OF ps(1) d(4) i'(1,2)] by simp
  moreover have "b - oy = b' - oy"
    using axis_block_unique[OF ps(2) d(2) i(3,4)] axis_block_unique[OF ps(2) d(5) i'(3,4)] by simp
  moreover have "c - ox = c' - ox"
    using axis_block_unique[OF ps(3) d(3) i(5,6)] axis_block_unique[OF ps(3) d(6) i'(5,6)] by simp
  ultimately show ?thesis by (simp add: L L' e)
qed

lemma grid_blocks_disjoint:
  assumes "vless (0, 0, 0) (block_shape G)" "grid_block G L" "grid_block G L'" "L \<noteq> L'"
  shows "box_empty (box_intersection L L')"
proof (rule ccontr)
  assume "\<not> box_empty (box_intersection L L')"
  from nonempty_intersection_point[OF this] grid_block_unique[OF assms(1,2,3)] assms(4)
  show False by blast
qed

lemma map_result_map:
  "\<forall>x \<in> set xs. f x = Inr (g x) \<Longrightarrow> map_result f xs = Inr (map g xs)"
  by (induction xs) simp_all

lemma axis_meet:
  assumes "0 < (s::int)" "t \<in> set (axis_starts (lo - off) (hi - off) s)" "lo \<le> hi"
  shows "max (t + off) lo \<le> min (t + s + off) hi"
  using axis_starts_range[OF assms(1,2)] assms(1,3) by simp

lemma grid_boxes_meet:
  assumes "vless (0, 0, 0) (block_shape G)" "L \<in> set (grid_boxes B G)" "vle (fst B) (snd B)"
  shows "vle (fst (box_intersection L B)) (snd (box_intersection L B))"
proof -
  obtain z0 y0 x0 z1 y1 x1 where B: "B = ((z0, y0, x0), (z1, y1, x1))" by (metis prod.exhaust)
  obtain oz oy ox where off: "offset G = (oz, oy, ox)" by (metis prod.exhaust)
  obtain sz sy sx where bs: "block_shape G = (sz, sy, sx)" by (metis prod.exhaust)
  obtain st where st: "st \<in> set (grid_starts (box_sub B (offset G)) (block_shape G))"
    "L = box_add (st, vadd st (block_shape G)) (offset G)" using assms(2) by (auto simp: grid_boxes_def)
  obtain a b c where abc: "st = (a, b, c)" by (metis prod.exhaust)
  have pos: "0 < sz" "0 < sy" "0 < sx" using assms(1) bs by simp_all
  have mem: "a \<in> set (axis_starts (z0 - oz) (z1 - oz) sz)" "b \<in> set (axis_starts (y0 - oy) (y1 - oy) sy)"
    "c \<in> set (axis_starts (x0 - ox) (x1 - ox) sx)"
    using st(1) by (simp_all add: grid_starts_def B off bs abc box_sub_def)
  have ord: "z0 \<le> z1" "y0 \<le> y1" "x0 \<le> x1" using assms(3) by (simp_all add: B)
  show ?thesis
    using axis_meet[OF pos(1) mem(1) ord(1)] axis_meet[OF pos(2) mem(2) ord(2)] axis_meet[OF pos(3) mem(3) ord(3)]
    by (simp add: st(2) abc bs off B box_add_def box_intersection_def)
qed

lemma axis_fits_mono:
  assumes "0 < s" "axis_fits ulo uhi off s" "ulo \<le> lo" "lo \<le> hi" "hi \<le> uhi"
  shows "axis_fits lo hi off s"
  using assms unfolding axis_fits_def in_int64_def by simp

lemma fits_mono:
  assumes "vless (0, 0, 0) (block_shape G)" "no_int64_wrap U G" "within B U"
  shows "no_int64_wrap B G"
proof -
  obtain z0 y0 x0 z1 y1 x1 where B: "B = ((z0, y0, x0), (z1, y1, x1))" by (metis prod.exhaust)
  obtain u0 v0 w0 u1 v1 w1 where U: "U = ((u0, v0, w0), (u1, v1, w1))" by (metis prod.exhaust)
  obtain oz oy ox where off: "offset G = (oz, oy, ox)" by (metis prod.exhaust)
  obtain sz sy sx where bs: "block_shape G = (sz, sy, sx)" by (metis prod.exhaust)
  have pos: "0 < sz" "0 < sy" "0 < sx" using assms(1) bs by simp_all
  have f: "axis_fits u0 u1 oz sz" "axis_fits v0 v1 oy sy" "axis_fits w0 w1 ox sx"
    using assms(2) by (simp_all add: no_int64_wrap_def U off bs)
  have w: "u0 \<le> z0" "z0 \<le> z1" "z1 \<le> u1" "v0 \<le> y0" "y0 \<le> y1" "y1 \<le> v1" "w0 \<le> x0" "x0 \<le> x1" "x1 \<le> w1"
    using assms(3) by (simp_all add: within_def B U)
  show ?thesis
    using axis_fits_mono[OF pos(1) f(1) w(1,2,3)] axis_fits_mono[OF pos(2) f(2) w(4,5,6)]
      axis_fits_mono[OF pos(3) f(3) w(7,8,9)]
    by (simp add: no_int64_wrap_def B off bs)
qed

lemma fragment_of_simps [simp]:
  "logical_box (fragment_of b L) = L"
  "physical_box (fragment_of b L) = box_intersection L (physical_box b)"
  by (simp_all add: fragment_of_def Let_def)

lemma fragment_of_voxel: "brick_voxel (fragment_of b L) p = brick_voxel b p"
  by (cases p rule: prod.exhaust; cases "physical_box b" rule: prod.exhaust; cases L rule: prod.exhaust)
     (auto simp: brick_voxel_def fragment_of_def Let_def box_intersection_def box_sub_def split: prod.splits)

lemma fragment_of_ok:
  assumes "vless (0, 0, 0) (block_shape G)" "brick_ok b" "L \<in> set (grid_boxes (physical_box b) G)"
  shows "brick_ok (fragment_of b L)"
proof -
  let ?s = "box_intersection L (physical_box b)"
  have ord: "vle (fst ?s) (snd ?s)" by (rule grid_boxes_meet[OF assms(1,3) brick_ok_ordered[OF assms(2)]])
  have "vle (0, 0, 0) (vsub (snd ?s) (fst ?s))" using ord by (simp add: vle_zero_vsub)
  then have "vint (vnat (vsub (snd ?s) (fst ?s))) = vsub (snd ?s) (fst ?s)" by (rule vint_vnat)
  moreover have "vle (fst L) (fst ?s)" "vle (snd ?s) (snd L)"
    by (simp_all add: box_intersection_def vmax_ge vmin_le)
  ultimately show ?thesis by (simp add: brick_ok_def fragment_of_def Let_def)
qed

lemma split_brick_spec:
  assumes "vless (0, 0, 0) (block_shape G)" "brick_ok b" "no_int64_wrap (physical_box b) G"
  shows "split_brick G b = Inr (map (\<lambda>L. (L, fragment_of b L)) (grid_boxes (physical_box b) G))"
proof -
  let ?P = "physical_box b"
  let ?f = "\<lambda>new_logical_box.
            let split_box = box_intersection new_logical_box ?P;
                split_box_internal = box_sub split_box (fst ?P)
            in case extract_subvol (volume b) split_box_internal of
                 Inl e \<Rightarrow> Inl e
               | Inr fragment_vol \<Rightarrow>
                   (case Brick_init new_logical_box split_box fragment_vol of
                      Inl e \<Rightarrow> Inl e
                    | Inr fragment_brick \<Rightarrow> Inr (new_logical_box, fragment_brick))"
  have each: "\<forall>L \<in> set (grid_boxes ?P G). ?f L = Inr (L, fragment_of b L)"
  proof
    fix L assume L: "L \<in> set (grid_boxes ?P G)"
    let ?s = "box_intersection L ?P"
    have ord: "vle (fst ?s) (snd ?s)" by (rule grid_boxes_meet[OF assms(1) L brick_ok_ordered[OF assms(2)]])
    have lo: "vle (fst ?P) (fst ?s)" and hi: "vle (snd ?s) (snd ?P)"
      and lo': "vle (fst L) (fst ?s)" and hi': "vle (snd ?s) (snd L)"
      by (simp_all add: box_intersection_def vmax_ge vmin_le)
    have i0: "vle (0, 0, 0) (fst (box_sub ?s (fst ?P)))" using lo by (simp add: vle_zero_vsub)
    have i1: "vle (snd (box_sub ?s (fst ?P))) (vint (shape (volume b)))"
      using vle_vsub_mono[OF hi, of "fst ?P"] assms(2) by (simp add: brick_ok_def)
    have ex: "extract_subvol (volume b) (box_sub ?s (fst ?P)) = Inr (volume (fragment_of b L))"
      using i0 i1 by (simp add: extract_subvol_def fragment_of_def Let_def)
    have "vle (0, 0, 0) (vsub (snd ?s) (fst ?s))" using ord by (simp add: vle_zero_vsub)
    then have sh: "vsub (snd ?s) (fst ?s) = vint (shape (volume (fragment_of b L)))"
      by (simp add: fragment_of_def Let_def vint_vnat)
    have "Brick_init L ?s (volume (fragment_of b L)) = Inr (fragment_of b L)"
      using Brick_init_Inr[OF sh lo' hi'] by (simp add: fragment_of_def Let_def)
    then show "?f L = Inr (L, fragment_of b L)" using ex by (simp add: Let_def)
  qed
  show ?thesis
    unfolding split_brick_def boxes_from_grid_pos[OF assms(1,3)]
    using map_result_map[OF each] by simp
qed

lemma filter_key_distinct:
  "distinct xs \<Longrightarrow>
     map snd (filter (\<lambda>kv. fst kv = k) (map (\<lambda>L. (L, f L)) xs)) = (if k \<in> set xs then [f k] else [])"
  by (induction xs) auto

lemma group_of_key:
  assumes "vless (0, 0, 0) (block_shape G)"
  shows "map snd (filter (\<lambda>kv. fst kv = k)
            (concat (map (\<lambda>b. map (\<lambda>L. (L, fragment_of b L)) (grid_boxes (physical_box b) G)) bricks)))
         = map (\<lambda>b. fragment_of b k) (filter (\<lambda>b. k \<in> set (grid_boxes (physical_box b) G)) bricks)"
proof (induction bricks)
  case Nil then show ?case by simp
next
  case (Cons b bricks)
  have d: "distinct (grid_boxes (physical_box b) G)" by (rule grid_boxes_distinct[OF assms])
  show ?case
    using Cons.IH filter_key_distinct[OF d, of k "fragment_of b"] by simp
qed

lemma box_empty_inter_mono:
  "box_empty (box_intersection a c) \<Longrightarrow> box_empty (box_intersection (box_intersection k a) (box_intersection k c))"
  by (cases a rule: prod.exhaust; cases c rule: prod.exhaust; cases k rule: prod.exhaust)
     (auto simp: box_empty_def box_intersection_def split: prod.splits)

lemma disjoint_boxes_filter_inter:
  "disjoint_boxes (map physical_box bs)
   \<Longrightarrow> disjoint_boxes (map (\<lambda>b. box_intersection k (physical_box b)) (filter P bs))"
proof (induction bs)
  case Nil then show ?case by simp
next
  case (Cons b bs)
  then have IH: "disjoint_boxes (map (\<lambda>b. box_intersection k (physical_box b)) (filter P bs))" by simp
  have hd: "\<forall>c \<in> set bs. box_empty (box_intersection (physical_box b) (physical_box c))"
    using Cons.prems by (simp add: list_all_iff)
  show ?case
    using IH hd by (auto simp: list_all_iff box_empty_inter_mono)
qed

lemma box_empty_inter_sub:
  assumes "box_empty (box_intersection A C)"
    and "vle (fst A) (fst a)" "vle (snd a) (snd A)" "vle (fst C) (fst c)" "vle (snd c) (snd C)"
  shows "box_empty (box_intersection a c)"
  using assms
  by (cases a rule: prod.exhaust; cases c rule: prod.exhaust; cases A rule: prod.exhaust; cases C rule: prod.exhaust)
     (auto simp: box_empty_def box_intersection_def split: prod.splits)

lemma wall_disjoint:
  assumes "vless (0, 0, 0) (block_shape G)"
  shows "brick_wall G W \<Longrightarrow> disjoint_boxes (map physical_box W)"
proof (induction W)
  case Nil then show ?case by simp
next
  case (Cons b W)
  have w: "brick_wall G W" using Cons.prems by (simp add: brick_wall_def)
  have hb: "brick_ok b" "grid_block G (logical_box b)" using Cons.prems by (simp_all add: brick_wall_def)
  have "\<forall>c \<in> set W. box_empty (box_intersection (physical_box b) (physical_box c))"
  proof
    fix c assume c: "c \<in> set W"
    have hc: "brick_ok c" "grid_block G (logical_box c)"
      using Cons.prems c by (simp_all add: brick_wall_def list_all_iff)
    have ne: "logical_box b \<noteq> logical_box c" using Cons.prems c by (auto simp: brick_wall_def)
    have e: "box_empty (box_intersection (logical_box b) (logical_box c))"
      by (rule grid_blocks_disjoint[OF assms hb(2) hc(2) ne])
    show "box_empty (box_intersection (physical_box b) (physical_box c))"
      using box_empty_inter_sub[OF e] hb(1) hc(1) by (simp add: brick_ok_def)
  qed
  then show ?case using Cons.IH[OF w] by (simp add: list_all_iff)
qed

lemma block_in_grid_boxes:
  assumes "vless (0, 0, 0) (block_shape G)" "grid_block G k" "in_box p k" "in_box p B"
  shows "k \<in> set (grid_boxes B G)"
proof -
  from grid_boxes_cover[OF assms(1,4)] obtain L where L: "L \<in> set (grid_boxes B G)" "in_box p L" by blast
  have "grid_block G L" by (rule grid_boxes_block[OF assms(1) L(1)])
  from grid_block_unique[OF assms(1) this assms(2) L(2) assms(3)] L(1) show ?thesis by simp
qed

lemma map_result_all2:
  "\<forall>x \<in> set xs. \<exists>y. f x = Inr y \<and> P x y \<Longrightarrow> \<exists>ys. map_result f xs = Inr ys \<and> list_all2 P xs ys"
proof (induction xs)
  case Nil then show ?case by simp
next
  case (Cons x xs)
  then obtain y ys where "f x = Inr y" "P x y" "map_result f xs = Inr ys" "list_all2 P xs ys" by auto
  then show ?case by simp
qed

lemma all2_right: "list_all2 P xs ys \<Longrightarrow> y \<in> set ys \<Longrightarrow> \<exists>x \<in> set xs. P x y"
  by (induction rule: list_all2_induct) auto

lemma all2_left: "list_all2 P xs ys \<Longrightarrow> x \<in> set xs \<Longrightarrow> \<exists>y \<in> set ys. P x y"
  by (induction rule: list_all2_induct) auto

lemma all2_fst: "list_all2 P xs ys \<Longrightarrow> (\<And>x y. P x y \<Longrightarrow> fst y = fst x) \<Longrightarrow> map fst ys = map fst xs"
  by (induction rule: list_all2_induct) simp_all

lemma realign_spec:
  fixes bricks :: "('a::zero) Brick list"
  assumes pos: "vless (0, 0, 0) (block_shape G)"
    and ok: "\<forall>b \<in> set bricks. brick_ok b"
    and inU: "\<forall>b \<in> set bricks. within (physical_box b) U"
    and fitU: "no_int64_wrap U G"
    and dj: "disjoint_boxes (map physical_box bricks)"
  shows "\<exists>out. realign_bricks_to_new_grid G bricks = Inr out
      \<and> distinct (map fst out)
      \<and> (\<forall>kr \<in> set out. brick_ok (snd kr) \<and> logical_box (snd kr) = fst kr \<and> grid_block G (fst kr)
            \<and> within (physical_box (snd kr)) U)
      \<and> (\<forall>kr \<in> set out. \<forall>b \<in> set bricks. \<forall>p.
            in_box p (physical_box (snd kr)) \<longrightarrow> in_box p (physical_box b)
            \<longrightarrow> brick_voxel (snd kr) p = brick_voxel b p)
      \<and> (\<forall>b \<in> set bricks. \<forall>p. in_box p (physical_box b)
            \<longrightarrow> (\<exists>kr \<in> set out. in_box p (physical_box (snd kr))))"
proof -
  define frags where "frags = (\<lambda>b :: 'a Brick. map (\<lambda>L. (L, fragment_of b L)) (grid_boxes (physical_box b) G))"
  define kvs where "kvs = concat (map frags bricks)"
  define grp where "grp = (\<lambda>k. map (\<lambda>b. fragment_of b k) (filter (\<lambda>b. k \<in> set (grid_boxes (physical_box b) G)) bricks))"
  define keys where "keys = remdups (map fst kvs)"
  define asm where "asm = (\<lambda>(key :: box, fragments :: 'a Brick list).
       case assemble_brick_fragments fragments of Inl e \<Rightarrow> Inl e | Inr brick \<Rightarrow> Inr (key, brick))"
  define P where "P = (\<lambda>(x :: box \<times> 'a Brick list) (y :: box \<times> 'a Brick).
       fst y = fst x \<and> brick_ok (snd y) \<and> logical_box (snd y) = fst x
       \<and> physical_box (snd y) = bounding_box_of (snd x)
       \<and> (\<forall>p. \<forall>f \<in> set (snd x). in_box p (physical_box f) \<longrightarrow> brick_voxel (snd y) p = brick_voxel f p))"
  have fit: "\<forall>b \<in> set bricks. no_int64_wrap (physical_box b) G"
    using fits_mono[OF pos fitU] inU by blast
  have sp: "map_result (split_brick G) bricks = Inr (map frags bricks)"
    by (rule map_result_map) (simp add: split_brick_spec[OF pos] ok fit frags_def)
  have gk: "group_by_key kvs = map (\<lambda>k. (k, grp k)) keys"
    unfolding group_by_key_def keys_def kvs_def frags_def grp_def by (simp add: group_of_key[OF pos])
  have unfold: "realign_bricks_to_new_grid G bricks = map_result asm (map (\<lambda>k. (k, grp k)) keys)"
    unfolding realign_bricks_to_new_grid_def sp asm_def
    by (simp add: Let_def gk[unfolded kvs_def])
  have keys_iff: "\<And>k. k \<in> set keys \<longleftrightarrow> (\<exists>b \<in> set bricks. k \<in> set (grid_boxes (physical_box b) G))"
    unfolding keys_def kvs_def frags_def by (auto simp: image_iff)
  have grp_set: "\<And>k. set (grp k) = (\<lambda>b. fragment_of b k) ` {b \<in> set bricks. k \<in> set (grid_boxes (physical_box b) G)}"
    unfolding grp_def by auto
  have each: "\<forall>x \<in> set (map (\<lambda>k. (k, grp k)) keys). \<exists>y. asm x = Inr y \<and> P x y"
  proof
    fix x assume "x \<in> set (map (\<lambda>k. (k, grp k)) keys)"
    then obtain k where k: "k \<in> set keys" "x = (k, grp k)" by auto
    from k(1) obtain b0 where b0: "b0 \<in> set bricks" "k \<in> set (grid_boxes (physical_box b0) G)"
      using keys_iff by blast
    have ne: "grp k \<noteq> []" using b0 grp_set[of k] by auto
    have okf: "\<forall>f \<in> set (grp k). brick_ok f"
    proof
      fix f assume "f \<in> set (grp k)"
      then obtain b where b: "b \<in> set bricks" "k \<in> set (grid_boxes (physical_box b) G)"
        "f = fragment_of b k" unfolding grp_set by blast
      have "brick_ok b" using ok b(1) by blast
      from fragment_of_ok[OF pos this b(2)] show "brick_ok f" by (simp only: b(3))
    qed
    have lb: "\<forall>f \<in> set (grp k). logical_box f = k" unfolding grp_set by auto
    have djf: "disjoint_boxes (map physical_box (grp k))"
      using disjoint_boxes_filter_inter[OF dj, of k] unfolding grp_def by (simp add: comp_def)
    from assemble_spec[OF ne okf lb djf] obtain r where r: "assemble_brick_fragments (grp k) = Inr r"
      "brick_ok r" "logical_box r = k" "physical_box r = bounding_box_of (grp k)"
      "\<forall>p. \<forall>f \<in> set (grp k). in_box p (physical_box f) \<longrightarrow> brick_voxel r p = brick_voxel f p"
      by blast
    have "asm x = Inr (k, r)" using r(1) by (simp add: asm_def k(2))
    moreover have "P x (k, r)" using r(2-5) by (simp add: P_def k(2))
    ultimately show "\<exists>y. asm x = Inr y \<and> P x y" by blast
  qed
  from map_result_all2[OF each] obtain out where out: "map_result asm (map (\<lambda>k. (k, grp k)) keys) = Inr out"
    "list_all2 P (map (\<lambda>k. (k, grp k)) keys) out" by blast
  have res: "realign_bricks_to_new_grid G bricks = Inr out" using unfold out(1) by simp
  have "map fst out = map fst (map (\<lambda>k. (k, grp k)) keys)"
    by (rule all2_fst[OF out(2)]) (simp add: P_def)
  then have mf: "map fst out = keys" by (simp add: comp_def)
  have dist: "distinct (map fst out)" unfolding mf keys_def by simp
  have of_out: "\<And>kr. kr \<in> set out \<Longrightarrow> fst kr \<in> set keys \<and> P (fst kr, grp (fst kr)) kr"
  proof -
    fix kr assume "kr \<in> set out"
    from all2_right[OF out(2) this] obtain x where x: "x \<in> set (map (\<lambda>k. (k, grp k)) keys)" "P x kr" by blast
    then obtain k where k: "k \<in> set keys" "x = (k, grp k)" by auto
    have "fst kr = k" using x(2) k(2) by (simp add: P_def)
    then show "fst kr \<in> set keys \<and> P (fst kr, grp (fst kr)) kr" using k x(2) by simp
  qed
  have frag_in: "\<And>b k. b \<in> set bricks \<Longrightarrow> k \<in> set (grid_boxes (physical_box b) G) \<Longrightarrow> fragment_of b k \<in> set (grp k)"
    unfolding grp_set by blast
  have p1: "\<forall>kr \<in> set out. brick_ok (snd kr) \<and> logical_box (snd kr) = fst kr \<and> grid_block G (fst kr)
            \<and> within (physical_box (snd kr)) U"
  proof
    fix kr assume kr: "kr \<in> set out"
    note f = of_out[OF kr]
    have a: "brick_ok (snd kr)" "logical_box (snd kr) = fst kr"
      "physical_box (snd kr) = bounding_box_of (grp (fst kr))"
      using f by (simp_all add: P_def)
    from f obtain b0 where b0: "b0 \<in> set bricks" "fst kr \<in> set (grid_boxes (physical_box b0) G)"
      using keys_iff by blast
    have gb: "grid_block G (fst kr)" by (rule grid_boxes_block[OF pos b0(2)])
    have ne: "grp (fst kr) \<noteq> []" using frag_in[OF b0] by auto
    have "\<forall>f \<in> set (grp (fst kr)). vle (fst U) (fst (physical_box f)) \<and> vle (snd (physical_box f)) (snd U)"
    proof
      fix f assume "f \<in> set (grp (fst kr))"
      then obtain b where b: "b \<in> set bricks" "f = fragment_of b (fst kr)" unfolding grp_set by auto
      have w: "vle (fst U) (fst (physical_box b))" "vle (snd (physical_box b)) (snd U)"
        using inU b(1) by (simp_all add: within_def)
      have "vle (fst (physical_box b)) (fst (physical_box f))" "vle (snd (physical_box f)) (snd (physical_box b))"
        by (simp_all add: b(2) box_intersection_def vmax_ge vmin_le)
      then show "vle (fst U) (fst (physical_box f)) \<and> vle (snd (physical_box f)) (snd U)"
        using w vle_trans by blast
    qed
    from bounding_box_of_within[OF ne this]
    have "within (physical_box (snd kr)) U"
      using brick_ok_ordered[OF a(1)] by (simp add: within_def a(3))
    then show "brick_ok (snd kr) \<and> logical_box (snd kr) = fst kr \<and> grid_block G (fst kr)
            \<and> within (physical_box (snd kr)) U" using a(1,2) gb by simp
  qed
  have p2: "\<forall>kr \<in> set out. \<forall>b \<in> set bricks. \<forall>p.
            in_box p (physical_box (snd kr)) \<longrightarrow> in_box p (physical_box b)
            \<longrightarrow> brick_voxel (snd kr) p = brick_voxel b p"
  proof (intro ballI allI impI)
    fix kr b p assume kr: "kr \<in> set out" and b: "b \<in> set bricks"
      and pr: "in_box p (physical_box (snd kr))" and pb: "in_box p (physical_box b)"
    note f = of_out[OF kr]
    have a: "brick_ok (snd kr)" "logical_box (snd kr) = fst kr" using f by (simp_all add: P_def)
    have val: "\<forall>p. \<forall>f \<in> set (grp (fst kr)). in_box p (physical_box f) \<longrightarrow> brick_voxel (snd kr) p = brick_voxel f p"
      using f by (simp add: P_def)
    have pk: "in_box p (fst kr)"
      using in_box_mono[OF pr, of "logical_box (snd kr)"] a by (simp add: brick_ok_def)
    have gb: "grid_block G (fst kr)" using p1 kr by blast
    have kin: "fst kr \<in> set (grid_boxes (physical_box b) G)"
      by (rule block_in_grid_boxes[OF pos gb pk pb])
    have "in_box p (physical_box (fragment_of b (fst kr)))" using pk pb by (simp add: in_box_intersection)
    then have "brick_voxel (snd kr) p = brick_voxel (fragment_of b (fst kr)) p"
      using val frag_in[OF b kin] by blast
    then show "brick_voxel (snd kr) p = brick_voxel b p" by (simp add: fragment_of_voxel)
  qed
  have p3: "\<forall>b \<in> set bricks. \<forall>p. in_box p (physical_box b)
            \<longrightarrow> (\<exists>kr \<in> set out. in_box p (physical_box (snd kr)))"
  proof (intro ballI allI impI)
    fix b p assume b: "b \<in> set bricks" and pb: "in_box p (physical_box b)"
    from grid_boxes_cover[OF pos pb] obtain k where k: "k \<in> set (grid_boxes (physical_box b) G)" "in_box p k"
      by blast
    have kk: "k \<in> set keys" using keys_iff b k(1) by blast
    then have "(k, grp k) \<in> set (map (\<lambda>k. (k, grp k)) keys)" by simp
    from all2_left[OF out(2) this] obtain kr where kr: "kr \<in> set out" "P (k, grp k) kr" by blast
    have ph: "physical_box (snd kr) = bounding_box_of (grp k)" using kr(2) by (simp add: P_def)
    have fin: "fragment_of b k \<in> set (grp k)" by (rule frag_in[OF b k(1)])
    then have ne: "grp k \<noteq> []" by auto
    have "in_box p (physical_box (fragment_of b k))" using k(2) pb by (simp add: in_box_intersection)
    from in_box_mono[OF this bounding_box_of_bounds[OF ne fin]]
    have "in_box p (physical_box (snd kr))" by (simp add: ph)
    then show "\<exists>kr \<in> set out. in_box p (physical_box (snd kr))" using kr(1) by blast
  qed
  show ?thesis using res dist p1 p2 p3 by blast
qed

lemma out_wall:
  assumes "distinct (map fst out)"
    and "\<forall>kr \<in> set out. brick_ok (snd kr) \<and> logical_box (snd kr) = fst kr \<and> grid_block G (fst kr)
            \<and> within (physical_box (snd kr)) U"
  shows "brick_wall G (map snd out)"
proof -
  have eq: "map logical_box (map snd out) = map fst out"
    using assms(2) by (simp add: comp_def cong: map_cong)
  have "distinct (map logical_box (map snd out))" using assms(1) by (simp only: eq)
  moreover have "list_all (\<lambda>b. brick_ok b \<and> grid_block G (logical_box b)) (map snd out)"
    using assms(2) by (simp add: list_all_iff)
  ultimately show ?thesis by (simp add: brick_wall_def)
qed

text \<open>
  C1, as stated, fails on the code.  The wall of the single brick
  \<open>[(2^63 - 8, 0, 0), (2^63 - 1, 1, 1))\<close> lies on the grid of block shape \<open>(7, 1, 1)\<close>, and its
  coordinates are int64.  Realigned to the grid of block shape \<open>(3, 1, 1)\<close>, the walk of
  \<^verbatim>\<open>split_brick\<close> over the new grid wraps around: \<^verbatim>\<open>aligned_stop\<close> comes out as \<open>2^63 - 1\<close>, the
  third block starts at \<open>2^63 - 2\<close> and its stop wraps to \<open>- 2^63 + 1\<close>, the fragment cut out
  for it fails an assertion, and \<^verbatim>\<open>realign_bricks_to_new_grid\<close> yields no brick.
\<close>

theorem realign_wraps_counterexample:
  "vless (0, 0, 0) (block_shape \<lparr>block_shape = (7, 1, 1), offset = (0, 0, 0)\<rparr>)
   \<and> vless (0, 0, 0) (block_shape \<lparr>block_shape = (3, 1, 1), offset = (0, 0, 0)\<rparr>)
   \<and> brick_wall \<lparr>block_shape = (7, 1, 1), offset = (0, 0, 0)\<rparr> [edge_brick]
   \<and> in_int64 9223372036854775800 \<and> in_int64 9223372036854775807
   \<and> realign_bricks_to_new_grid \<lparr>block_shape = (3, 1, 1), offset = (0, 0, 0)\<rparr> [edge_brick]
       = Inl (AssertionError [])"
proof -
  have "(case realign_bricks_to_new_grid \<lparr>block_shape = (3, 1, 1), offset = (0, 0, 0)\<rparr> [edge_brick] of
           Inl e \<Rightarrow> Some e | Inr W' \<Rightarrow> None) = Some (AssertionError [])"
    by code_simp
  then have "realign_bricks_to_new_grid \<lparr>block_shape = (3, 1, 1), offset = (0, 0, 0)\<rparr> [edge_brick]
       = Inl (AssertionError [])"
    by (simp split: sum.splits)
  moreover have "brick_wall \<lparr>block_shape = (7, 1, 1), offset = (0, 0, 0)\<rparr> [edge_brick]"
    by (simp add: brick_wall_def brick_ok_def grid_block_def edge_brick_def)
  ultimately show ?thesis by (simp add: in_int64_def)
qed

text \<open>
  C1, amended.  Let \<open>W\<close> be a wall on the grid \<open>G\<close> (intact bricks, each on a block of \<open>G\<close>, no
  block twice), let both grids have positive block shapes, and let the wall lie in a region
  \<open>U\<close> on which the walk of neither grid wraps around in int64.  Then realigning \<open>W\<close> to \<open>G'\<close>
  returns, realigning the bricks of the result back to \<open>G\<close> returns, the final bricks form a
  wall on \<open>G\<close>, at every coordinate that lies in the physical box of a final brick and in the
  physical box of a brick of \<open>W\<close> the two bricks hold the same value, and every coordinate
  covered by \<open>W\<close> is covered by a final brick.  (\<^verbatim>\<open>BrickWall.realign_to_new_grid\<close> is not among
  the sources; the bricks handed to the second realignment are the values of the pairs
  returned by the first.)
\<close>

theorem realign_round_trip:
  fixes W :: "('a::zero) Brick list"
  assumes posG: "vless (0, 0, 0) (block_shape G)" and posG': "vless (0, 0, 0) (block_shape G')"
    and wall: "brick_wall G W"
    and inU: "list_all (\<lambda>b. within (physical_box b) U) W"
    and fitG: "no_int64_wrap U G" and fitG': "no_int64_wrap U G'"
  shows "\<exists>W' W''. realign_bricks_to_new_grid G' W = Inr W'
           \<and> realign_bricks_to_new_grid G (map snd W') = Inr W''
           \<and> brick_wall G (map snd W'')
           \<and> (\<forall>r \<in> set (map snd W''). \<forall>b \<in> set W. \<forall>p.
                 in_box p (physical_box r) \<and> in_box p (physical_box b)
                 \<longrightarrow> brick_voxel r p = brick_voxel b p)
           \<and> (\<forall>b \<in> set W. \<forall>p. in_box p (physical_box b)
                 \<longrightarrow> (\<exists>r \<in> set (map snd W''). in_box p (physical_box r)))"
proof -
  have okW: "\<forall>b \<in> set W. brick_ok b" using wall by (simp add: brick_wall_def list_all_iff)
  have inW: "\<forall>b \<in> set W. within (physical_box b) U" using inU by (simp add: list_all_iff)
  have djW: "disjoint_boxes (map physical_box W)" by (rule wall_disjoint[OF posG wall])
  from realign_spec[OF posG' okW inW fitG' djW]
  obtain W' where W': "realign_bricks_to_new_grid G' W = Inr W'" "distinct (map fst W')"
    and a1: "\<forall>kr \<in> set W'. brick_ok (snd kr) \<and> logical_box (snd kr) = fst kr \<and> grid_block G' (fst kr)
            \<and> within (physical_box (snd kr)) U"
    and q1: "\<forall>kr \<in> set W'. \<forall>b \<in> set W. \<forall>p.
            in_box p (physical_box (snd kr)) \<longrightarrow> in_box p (physical_box b)
            \<longrightarrow> brick_voxel (snd kr) p = brick_voxel b p"
    and c1: "\<forall>b \<in> set W. \<forall>p. in_box p (physical_box b)
            \<longrightarrow> (\<exists>kr \<in> set W'. in_box p (physical_box (snd kr)))"
    by blast
  let ?V = "map snd W'"
  have wallV: "brick_wall G' ?V" by (rule out_wall[OF W'(2) a1])
  have okV: "\<forall>b \<in> set ?V. brick_ok b" using a1 by auto
  have inV: "\<forall>b \<in> set ?V. within (physical_box b) U" using a1 by auto
  have djV: "disjoint_boxes (map physical_box ?V)" by (rule wall_disjoint[OF posG' wallV])
  from realign_spec[OF posG okV inV fitG djV]
  obtain W'' where W'': "realign_bricks_to_new_grid G ?V = Inr W''" "distinct (map fst W'')"
    and a2: "\<forall>kr \<in> set W''. brick_ok (snd kr) \<and> logical_box (snd kr) = fst kr \<and> grid_block G (fst kr)
            \<and> within (physical_box (snd kr)) U"
    and q2: "\<forall>kr \<in> set W''. \<forall>b \<in> set ?V. \<forall>p.
            in_box p (physical_box (snd kr)) \<longrightarrow> in_box p (physical_box b)
            \<longrightarrow> brick_voxel (snd kr) p = brick_voxel b p"
    and c2: "\<forall>b \<in> set ?V. \<forall>p. in_box p (physical_box b)
            \<longrightarrow> (\<exists>kr \<in> set W''. in_box p (physical_box (snd kr)))"
    by blast
  have wall'': "brick_wall G (map snd W'')" by (rule out_wall[OF W''(2) a2])
  have vals: "\<forall>r \<in> set (map snd W''). \<forall>b \<in> set W. \<forall>p.
                 in_box p (physical_box r) \<and> in_box p (physical_box b)
                 \<longrightarrow> brick_voxel r p = brick_voxel b p"
  proof (intro ballI allI impI)
    fix r b p assume r: "r \<in> set (map snd W'')" and b: "b \<in> set W"
      and p: "in_box p (physical_box r) \<and> in_box p (physical_box b)"
    from r obtain kr2 where kr2: "kr2 \<in> set W''" "r = snd kr2" by auto
    from c1 b p obtain kr1 where kr1: "kr1 \<in> set W'" "in_box p (physical_box (snd kr1))" by blast
    have e1: "brick_voxel (snd kr1) p = brick_voxel b p" using q1 kr1 b p by blast
    have "snd kr1 \<in> set ?V" using kr1(1) by simp
    then have "brick_voxel (snd kr2) p = brick_voxel (snd kr1) p" using q2 kr2(1) kr1(2) p kr2(2) by blast
    then show "brick_voxel r p = brick_voxel b p" using e1 kr2(2) by simp
  qed
  have cover: "\<forall>b \<in> set W. \<forall>p. in_box p (physical_box b)
                 \<longrightarrow> (\<exists>r \<in> set (map snd W''). in_box p (physical_box r))"
  proof (intro ballI allI impI)
    fix b p assume b: "b \<in> set W" and p: "in_box p (physical_box b)"
    from c1 b p obtain kr1 where kr1: "kr1 \<in> set W'" "in_box p (physical_box (snd kr1))" by blast
    have "snd kr1 \<in> set ?V" using kr1(1) by simp
    with c2 kr1(2) obtain kr2 where "kr2 \<in> set W''" "in_box p (physical_box (snd kr2))" by blast
    then show "\<exists>r \<in> set (map snd W''). in_box p (physical_box r)" by auto
  qed
  show ?thesis using W'(1) W''(1) wall'' vals cover by blast
qed

lemma realign_example:
  "(case realign_bricks_to_new_grid \<lparr>block_shape = (3, 1, 1), offset = (1, 0, 0)\<rparr> [row_a, row_b] of
      Inl e \<Rightarrow> None
    | Inr W' \<Rightarrow>
       (case realign_bricks_to_new_grid \<lparr>block_shape = (2, 1, 1), offset = (0, 0, 0)\<rparr> (map snd W') of
          Inl e \<Rightarrow> None
        | Inr W'' \<Rightarrow>
            Some (map fst W', map (\<lambda>kr. (fst kr, physical_box (snd kr),
                             map (brick_voxel (snd kr)) [(0, 0, 0), (1, 0, 0), (2, 0, 0)])) W'')))
   = Some ([((- 2, 0, 0), (1, 1, 1)), ((1, 0, 0), (4, 1, 1))],
           [(((0, 0, 0), (2, 1, 1)), ((0, 0, 0), (2, 1, 1)), [10, 11, 0]),
            (((2, 0, 0), (4, 1, 1)), ((2, 0, 0), (3, 1, 1)), [0, 0, 20])])"
  by code_simp

theorem realign_round_trip_witness:
  "vless (0, 0, 0) (block_shape \<lparr>block_shape = (2, 1, 1), offset = (0, 0, 0)\<rparr>)
   \<and> vless (0, 0, 0) (block_shape \<lparr>block_shape = (3, 1, 1), offset = (1, 0, 0)\<rparr>)
   \<and> brick_wall \<lparr>block_shape = (2, 1, 1), offset = (0, 0, 0)\<rparr> [row_a, row_b]
   \<and> list_all (\<lambda>b. within (physical_box b) ((0, 0, 0), (4, 1, 1))) [row_a, row_b]
   \<and> no_int64_wrap ((0, 0, 0), (4, 1, 1)) \<lparr>block_shape = (2, 1, 1), offset = (0, 0, 0)\<rparr>
   \<and> no_int64_wrap ((0, 0, 0), (4, 1, 1)) \<lparr>block_shape = (3, 1, 1), offset = (1, 0, 0)\<rparr>
   \<and> (\<exists>W' W''. realign_bricks_to_new_grid \<lparr>block_shape = (3, 1, 1), offset = (1, 0, 0)\<rparr> [row_a, row_b] = Inr W'
         \<and> map fst W' = [((- 2, 0, 0), (1, 1, 1)), ((1, 0, 0), (4, 1, 1))]
         \<and> realign_bricks_to_new_grid \<lparr>block_shape = (2, 1, 1), offset = (0, 0, 0)\<rparr> (map snd W') = Inr W''
         \<and> map (\<lambda>kr. (fst kr, physical_box (snd kr),
                       map (brick_voxel (snd kr)) [(0, 0, 0), (1, 0, 0), (2, 0, 0)])) W''
             = [(((0, 0, 0), (2, 1, 1)), ((0, 0, 0), (2, 1, 1)), [10, 11, 0]),
                (((2, 0, 0), (4, 1, 1)), ((2, 0, 0), (3, 1, 1)), [0, 0, 20])]
         \<and> (\<exists>r \<in> set (map snd W''). in_box (1, 0, 0) (physical_box r)
                \<and> brick_voxel r (1, 0, 0) = brick_voxel row_a (1, 0, 0))
         \<and> brick_voxel row_a (1, 0, 0) = 11)"
proof -
  let ?G = "\<lparr>block_shape = (2, 1, 1), offset = (0, 0, 0)\<rparr>"
  let ?G' = "\<lparr>block_shape = (3, 1, 1), offset = (1, 0, 0)\<rparr>"
  let ?U = "((0, 0, 0), (4, 1, 1)) :: box"
  have h1: "vless (0, 0, 0) (block_shape ?G)" by simp
  have h2: "vless (0, 0, 0) (block_shape ?G')" by simp
  have h3: "brick_wall ?G [row_a, row_b]"
    by (simp add: brick_wall_def brick_ok_def grid_block_def row_a_def row_b_def)
  have h4: "list_all (\<lambda>b. within (physical_box b) ?U) [row_a, row_b]"
    by (simp add: within_def row_a_def row_b_def)
  have h5: "no_int64_wrap ?U ?G" by (simp add: no_int64_wrap_def axis_fits_def in_int64_def)
  have h6: "no_int64_wrap ?U ?G'" by (simp add: no_int64_wrap_def axis_fits_def in_int64_def)
  from realign_round_trip[OF h1 h2 h3 h4 h5 h6]
  obtain W' W'' where r: "realign_bricks_to_new_grid ?G' [row_a, row_b] = Inr W'"
    "realign_bricks_to_new_grid ?G (map snd W') = Inr W''"
    and vals: "\<forall>r \<in> set (map snd W''). \<forall>b \<in> set [row_a, row_b]. \<forall>p.
                 in_box p (physical_box r) \<and> in_box p (physical_box b)
                 \<longrightarrow> brick_voxel r p = brick_voxel b p"
    and cover: "\<forall>b \<in> set [row_a, row_b]. \<forall>p. in_box p (physical_box b)
                 \<longrightarrow> (\<exists>r \<in> set (map snd W''). in_box p (physical_box r))"
    by blast
  have ex: "map fst W' = [((- 2, 0, 0), (1, 1, 1)), ((1, 0, 0), (4, 1, 1))]"
    "map (\<lambda>kr. (fst kr, physical_box (snd kr),
                       map (brick_voxel (snd kr)) [(0, 0, 0), (1, 0, 0), (2, 0, 0)])) W''
             = [(((0, 0, 0), (2, 1, 1)), ((0, 0, 0), (2, 1, 1)), [10, 11, 0]),
                (((2, 0, 0), (4, 1, 1)), ((2, 0, 0), (3, 1, 1)), [0, 0, 20])]"
    using realign_example by (simp_all add: r)
  have pa: "in_box (1, 0, 0) (physical_box row_a)" by (simp add: in_box_def row_a_def)
  have a: "row_a \<in> set [row_a, row_b]" by simp
  from cover a pa obtain r0 where r0: "r0 \<in> set (map snd W'')" "in_box (1, 0, 0) (physical_box r0)" by blast
  have "brick_voxel r0 (1, 0, 0) = brick_voxel row_a (1, 0, 0)" using vals r0 a pa by blast
  then have bx: "\<exists>r \<in> set (map snd W''). in_box (1, 0, 0) (physical_box r)
                \<and> brick_voxel r (1, 0, 0) = brick_voxel row_a (1, 0, 0)" using r0 by blast
  have v: "brick_voxel row_a (1, 0, 0) = 11" by (simp add: brick_voxel_def row_a_def)
  have ex2: "\<exists>W' W''. realign_bricks_to_new_grid ?G' [row_a, row_b] = Inr W'
         \<and> map fst W' = [((- 2, 0, 0), (1, 1, 1)), ((1, 0, 0), (4, 1, 1))]
         \<and> realign_bricks_to_new_grid ?G (map snd W') = Inr W''
         \<and> map (\<lambda>kr. (fst kr, physical_box (snd kr),
                       map (brick_voxel (snd kr)) [(0, 0, 0), (1, 0, 0), (2, 0, 0)])) W''
             = [(((0, 0, 0), (2, 1, 1)), ((0, 0, 0), (2, 1, 1)), [10, 11, 0]),
                (((2, 0, 0), (4, 1, 1)), ((2, 0, 0), (3, 1, 1)), [0, 0, 20])]
         \<and> (\<exists>r \<in> set (map snd W''). in_box (1, 0, 0) (physical_box r)
                \<and> brick_voxel r (1, 0, 0) = brick_voxel row_a (1, 0, 0))
         \<and> brick_voxel row_a (1, 0, 0) = 11"
    by (intro exI[of _ W'] exI[of _ W''] conjI; fact r ex bx v)
  show ?thesis by (intro conjI; fact h1 h2 h3 h4 h5 h6 ex2)
qed

end
